theory Spec2Isabelle
  imports Complex_Main
begin

section \<open>Data model (Simulation.hpp)\<close>

text \<open>
  The classes of the simulator are records; a field carries the name of the member with a
  prefix for its class (\<open>r_\<close> for \<open>Request\<close>, \<open>e_\<close> for \<open>Event\<close>, \<open>d_\<close> for
  \<open>Device\<close>, \<open>s_\<close> for \<open>Source\<close>), the members of \<open>Controller\<close> keep their names.
  A request is shared through pointers by the event, the buffer and the device that hold
  it; it is written only where it is handed from one to the next, so each holder keeps the
  request as a value, written before it is stored.

  Simulated times are C++ doubles; they are modelled as real numbers. The event loop uses
  only the order of times and sums with non-negative summands, and both are monotone under
  rounding. The time formatter multiplies and floors, where rounding shows; its product
  is rounded to binary64 (\<open>round_double\<close>).

  The counters are C++ ints; they are modelled as unbounded integers, and an increment
  adds one. That is the increment of the program wherever the counter is below
  \<open>INT_MAX\<close>; at \<open>INT_MAX\<close> the increment of the program is undefined. The
  statements about single calls that increment a counter carry the bound as a hypothesis.
  Lemmas \<open>counters_bounded\<close> and \<open>rejectedByPriority_bounded\<close> show that on every
  run all counters stay between 0 and the configured \<open>maxRequests\<close>, which is an
  \<open>int\<close>, so no increment of a run overflows (\<open>counters_in_int_range\<close>,
  \<open>rejected_below_INT_MAX_at_arrival\<close>).
\<close>

datatype Priority = CORPORATE | PREMIUM | FREE

text \<open>\<open>static_cast<int>\<close> of a priority: the enumerators in declaration order.\<close>

fun priority_int :: "Priority \<Rightarrow> int" where
  "priority_int CORPORATE = 0"
| "priority_int PREMIUM = 1"
| "priority_int FREE = 2"

record Request =
  r_id :: int
  r_priority :: Priority
  r_arrivalTime :: real
  r_sourceIndex :: int
  r_bufferEnterTime :: real
  r_startServiceTime :: real

text \<open>The constructor \<open>Request::Request\<close>.\<close>

definition new_Request :: "int \<Rightarrow> Priority \<Rightarrow> real \<Rightarrow> int \<Rightarrow> Request" where
  "new_Request ident pr arrivalTime sourceIndex =
     \<lparr>r_id = ident, r_priority = pr, r_arrivalTime = arrivalTime,
      r_sourceIndex = sourceIndex, r_bufferEnterTime = arrivalTime,
      r_startServiceTime = 0\<rparr>"

datatype EventType = REQUEST_GENERATED | REQUEST_SERVED

record Event =
  e_type :: EventType
  e_time :: real
  e_request :: Request
  e_deviceId :: int

text \<open>
  A random generator together with the distribution drawn from it is modelled by the
  sequence of values the draws return, from the generator's current state on: a draw
  takes element 0 and leaves the rest.
\<close>

type_synonym rng = "nat \<Rightarrow> real"

definition draw :: "rng \<Rightarrow> real \<times> rng" where
  "draw g = (g 0, \<lambda>n. g (Suc n))"

record Device =
  d_id :: int
  d_busy :: bool
  d_finishTime :: real
  d_busyTotalTime :: real
  d_startBusyTime :: real
  d_currentRequest :: "Request option"
  d_serviceTimeHours :: real
  d_rng :: rng

record Source =
  s_priority :: Priority
  s_sourceIndex :: int
  s_rng :: rng

text \<open>
  The controller owns the buffer; \<open>buffer\<close> is the deque \<open>requests_\<close> of its
  \<open>Buffer\<close>, front first. \<open>events\<close> holds the contents of the priority queue as a
  bag; which of several earliest events is on top is left open (see \<open>work_iter\<close>).
  \<open>rejectedByPriority\<close> is the \<open>std::map\<close>, which holds all three keys from the
  constructor on.
\<close>

record Controller =
  events :: "Event list"
  sources :: "Source list"
  devices :: "Device list"
  buffer :: "Request list"
  globalRequestId :: int
  maxRequests :: int
  generatedRequestsCount :: int
  rejectedRequests :: int
  rejectedByPriority :: "Priority \<Rightarrow> int"
  totalWaitTime :: real
  servedRequestsCount :: int
  lastEventTime :: real

definition BUFFER_SIZE :: nat where
  "BUFFER_SIZE = 8"

section \<open>Buffer (Simulation.cpp, lines 79-205)\<close>

text \<open>
  \<open>Controller::incrementRejectedRequests\<close> and
  \<open>Controller::incrementRejectedByPriority\<close>, which the buffer calls through its
  pointer to the controller: \<open>++\<close> on an \<open>int\<close>, one more for a counter below
  \<open>INT_MAX\<close> (and undefined at \<open>INT_MAX\<close>, a value no run reaches).
\<close>

definition incrementRejectedRequests :: "Controller \<Rightarrow> Controller" where
  "incrementRejectedRequests c = c\<lparr>rejectedRequests := rejectedRequests c + 1\<rparr>"

definition incrementRejectedByPriority :: "Priority \<Rightarrow> Controller \<Rightarrow> Controller" where
  "incrementRejectedByPriority pr c =
     c\<lparr>rejectedByPriority := (rejectedByPriority c)(pr := rejectedByPriority c pr + 1)\<rparr>"

text \<open>
  \<open>std::find_if\<close> over a sequence: the position of the first element that satisfies
  the predicate, the length of the sequence (\<open>end()\<close>) when there is none.
\<close>

fun find_if :: "('a \<Rightarrow> bool) \<Rightarrow> 'a list \<Rightarrow> nat" where
  "find_if P [] = 0"
| "find_if P (x # xs) = (if P x then 0 else Suc (find_if P xs))"

text \<open>\<open>deque::insert(it, x)\<close> and \<open>deque::erase(it)\<close> at a position.\<close>

definition insert_at :: "nat \<Rightarrow> 'a \<Rightarrow> 'a list \<Rightarrow> 'a list" where
  "insert_at i x xs = take i xs @ x # drop i xs"

definition erase_at :: "nat \<Rightarrow> 'a list \<Rightarrow> 'a list" where
  "erase_at i xs = take i xs @ drop (Suc i) xs"

text \<open>The lambda of the ordered insertion (lines 89-99): true at the insertion point.\<close>

definition insertion_point :: "Request \<Rightarrow> Request \<Rightarrow> bool" where
  "insertion_point req r =
     (if priority_int (r_priority r) < priority_int (r_priority req) then False
      else if r_priority r = r_priority req \<and> r_arrivalTime r < r_arrivalTime req then False
      else True)"

text \<open>
  \<open>req->setBufferEnterTime(req->getArrivalTime())\<close>. The source stores the pointer and
  then writes through it; the stored request is the updated one.
\<close>

definition stamp_enter :: "Request \<Rightarrow> Request" where
  "stamp_enter req = req\<lparr>r_bufferEnterTime := r_arrivalTime req\<rparr>"

text \<open>The rejection lines: both counters are incremented and the call returns false.\<close>

definition reject :: "Priority \<Rightarrow> Controller \<Rightarrow> bool \<times> Controller" where
  "reject pr c = (False, incrementRejectedByPriority pr (incrementRejectedRequests c))"

text \<open>
  An eviction branch: the occupant at position \<open>it\<close> is erased, both counters are
  incremented (the per-priority one for the evicted occupant), and the incoming request is
  pushed at the back.
\<close>

definition evict :: "nat \<Rightarrow> Request \<Rightarrow> Controller \<Rightarrow> bool \<times> Controller" where
  "evict it req c =
     (let evictedReq = buffer c ! it;
          c1 = c\<lparr>buffer := erase_at it (buffer c)\<rparr>;
          c2 = incrementRejectedRequests c1;
          c3 = incrementRejectedByPriority (r_priority evictedReq) c2
      in (True, c3\<lparr>buffer := buffer c3 @ [stamp_enter req]\<rparr>))"

definition addRequest :: "Request \<Rightarrow> Controller \<Rightarrow> bool \<times> Controller" where
  "addRequest req c =
     (if length (buffer c) < BUFFER_SIZE then
        (let it = find_if (insertion_point req) (buffer c)
         in (True, c\<lparr>buffer := insert_at it (stamp_enter req) (buffer c)\<rparr>))
      else
        (let newPr = r_priority req in
         if newPr = FREE then reject newPr c
         else if newPr = PREMIUM then
           (let itFree = find_if (\<lambda>r. r_priority r = FREE) (buffer c) in
            if itFree \<noteq> length (buffer c) then evict itFree req c
            else reject newPr c)
         else if newPr = CORPORATE then
           (let itFree = find_if (\<lambda>r. r_priority r = FREE) (buffer c) in
            if itFree \<noteq> length (buffer c) then evict itFree req c
            else
              (let itPrem = find_if (\<lambda>r. r_priority r = PREMIUM) (buffer c) in
               if itPrem \<noteq> length (buffer c) then evict itPrem req c
               else reject newPr c))
         else reject newPr c))"

text \<open>\<open>Buffer::popRequest\<close>: the front, or \<open>nullptr\<close> (here \<open>None\<close>) when empty.\<close>

definition popRequest :: "Controller \<Rightarrow> Request option \<times> Controller" where
  "popRequest c =
     (case buffer c of
        [] \<Rightarrow> (None, c)
      | req # rest \<Rightarrow> (Some req, c\<lparr>buffer := rest\<rparr>))"

text \<open>A sequence of calls on the buffer, as a client of the class can make them.\<close>

datatype BufferCall = AddRequest Request | PopRequest

fun buffer_call :: "BufferCall \<Rightarrow> Controller \<Rightarrow> Controller" where
  "buffer_call (AddRequest req) c = snd (addRequest req c)"
| "buffer_call PopRequest c = snd (popRequest c)"

fun buffer_calls :: "BufferCall list \<Rightarrow> Controller \<Rightarrow> Controller" where
  "buffer_calls [] c = c"
| "buffer_calls (x # xs) c = buffer_calls xs (buffer_call x c)"

text \<open>The ordering the buffer is meant to keep: \<open>a\<close> may stand before \<open>b\<close>.\<close>

definition may_precede :: "Request \<Rightarrow> Request \<Rightarrow> bool" where
  "may_precede a b =
     (priority_int (r_priority a) < priority_int (r_priority b)
      \<or> (r_priority a = r_priority b \<and> r_arrivalTime a \<le> r_arrivalTime b))"

definition ordered :: "Request list \<Rightarrow> bool" where
  "ordered rs = sorted_wrt may_precede rs"

section \<open>Time formatter (Simulation.cpp, lines 21-29)\<close>

definition INT_MIN :: int where
  "INT_MIN = - 2147483648"

definition INT_MAX :: int where
  "INT_MAX = 2147483647"

text \<open>
  \<open>static_cast<int>\<close> of a double truncates towards zero; the conversion is undefined
  when the truncated value is not representable in \<open>int\<close>, which is \<open>None\<close> here.
\<close>

definition static_cast_int :: "real \<Rightarrow> int option" where
  "static_cast_int x =
     (let t = (if 0 \<le> x then \<lfloor>x\<rfloor> else \<lceil>x\<rceil>)
      in if INT_MIN \<le> t \<and> t \<le> INT_MAX then Some t else None)"

text \<open>The division and remainder of C++ on \<open>int\<close>: the quotient truncates towards zero.\<close>

definition c_div :: "int \<Rightarrow> int \<Rightarrow> int" where
  "c_div a b = sgn a * sgn b * (\<bar>a\<bar> div \<bar>b\<bar>)"

definition c_mod :: "int \<Rightarrow> int \<Rightarrow> int" where
  "c_mod a b = a - b * c_div a b"

definition digit_char :: "nat \<Rightarrow> char" where
  "digit_char n = ''0123456789'' ! n"

fun decimal :: "nat \<Rightarrow> string" where
  "decimal n = (if n < 10 then [digit_char n] else decimal (n div 10) @ [digit_char (n mod 10)])"

declare decimal.simps [simp del]

text \<open>The conversion \<open>%02d\<close>: sign first, then zeros up to a width of two, then the digits.\<close>

definition printf_02d :: "int \<Rightarrow> string" where
  "printf_02d n =
     (let ds = decimal (nat \<bar>n\<bar>);
          sign = (if n < 0 then [CHR ''-''] else [])
      in sign @ replicate (2 - length sign - length ds) (CHR ''0'') @ ds)"

text \<open>
  The product \<open>simulationTimeHours * 60.0\<close> is a product of doubles: the exact product
  rounded to the nearest binary64 value, ties to the even significand (IEEE 754, the
  default rounding mode). A binary64 value is an integer multiple of the unit in the last
  place of its binade, \<open>2 ^ (e - 52)\<close> for \<open>2 ^ e \<le> |x| < 2 ^ (e + 1)\<close>, with the
  exponent \<open>e\<close> not below \<open>-1022\<close> (below that the values are subnormal and the unit
  stays \<open>2 ^ (-1074)\<close>). A result of magnitude \<open>2 ^ 1024\<close> or more is an infinity,
  which is \<open>None\<close> here.
\<close>

definition pow2 :: "int \<Rightarrow> real" where
  "pow2 k = (if 0 \<le> k then 2 ^ nat k else 1 / 2 ^ nat (- k))"

definition round_half_even :: "real \<Rightarrow> int" where
  "round_half_even x =
     (let f = \<lfloor>x\<rfloor>; d = x - of_int f
      in if d < 1 / 2 then f else if 1 / 2 < d then f + 1 else if even f then f else f + 1)"

definition binade :: "real \<Rightarrow> int" where
  "binade x = \<lfloor>log 2 \<bar>x\<bar>\<rfloor>"

definition round_double :: "real \<Rightarrow> real option" where
  "round_double x =
     (if x = 0 then Some 0
      else
        (let e = max (binade x) (- 1022);
             ulp = pow2 (e - 52);
             y = of_int (round_half_even (x / ulp)) * ulp
         in if \<bar>y\<bar> < pow2 1024 then Some y else None))"

text \<open>
  \<open>std::floor\<close> of a double is exact. \<open>snprintf\<close> into \<open>char buffer[6]\<close> keeps at
  most five characters.
\<close>

definition formatTime :: "real \<Rightarrow> string option" where
  "formatTime simulationTimeHours =
     (case round_double (simulationTimeHours * 60) of
        None \<Rightarrow> None
      | Some product \<Rightarrow>
          (case static_cast_int (of_int \<lfloor>product\<rfloor>) of
             None \<Rightarrow> None
           | Some totalMinutes \<Rightarrow>
               (let hours = c_mod (c_div totalMinutes 60) 24;
                    minutes = c_mod totalMinutes 60
                in Some (take 5 (printf_02d hours @ [CHR '':''] @ printf_02d minutes)))))"

text \<open>What the specification calls \<open>HH:MM\<close>: two fields of two decimal digits each.\<close>

definition two_digits :: "int \<Rightarrow> string" where
  "two_digits n = [digit_char (nat n div 10), digit_char (nat n mod 10)]"

definition HH_MM :: "int \<Rightarrow> string" where
  "HH_MM totalMinutes =
     two_digits ((totalMinutes div 60) mod 24) @ [CHR '':''] @ two_digits (totalMinutes mod 60)"

section \<open>Device (Simulation.cpp, lines 210-276)\<close>

definition new_Device :: "int \<Rightarrow> rng \<Rightarrow> Device" where
  "new_Device ident seed =
     \<lparr>d_id = ident, d_busy = False, d_finishTime = 0, d_busyTotalTime = 0,
      d_startBusyTime = 0, d_currentRequest = None, d_serviceTimeHours = 0, d_rng = seed\<rparr>"

text \<open>
  \<open>Device::loadRequest\<close>. The service time is the next draw of the device's generator.
  The request is stamped through the shared pointer; the stamped request is returned, and
  it is the one the device and the completion event hold.
\<close>

definition loadRequest :: "Request \<Rightarrow> real \<Rightarrow> Device \<Rightarrow> Device \<times> Request" where
  "loadRequest req currentTimeHours d =
     (let (serviceTime, g) = draw (d_rng d);
          req' = req\<lparr>r_startServiceTime := currentTimeHours\<rparr>
      in (d\<lparr>d_busy := True, d_currentRequest := Some req',
            d_startBusyTime := currentTimeHours, d_serviceTimeHours := serviceTime,
            d_finishTime := currentTimeHours + serviceTime, d_rng := g\<rparr>, req'))"

definition freeDevice :: "real \<Rightarrow> Device \<Rightarrow> Device" where
  "freeDevice timeHours d =
     d\<lparr>d_busyTotalTime := d_busyTotalTime d + (timeHours - d_startBusyTime d),
       d_busy := False, d_currentRequest := None\<rparr>"

section \<open>Source (Simulation.cpp, lines 281-337)\<close>

definition new_Source :: "Priority \<Rightarrow> int \<Rightarrow> rng \<Rightarrow> Source" where
  "new_Source pr sourceIndex seed =
     \<lparr>s_priority = pr, s_sourceIndex = sourceIndex, s_rng = seed\<rparr>"

text \<open>
  \<open>Source::generateInterArrivalTime\<close>: the next draw of the source's generator. The
  arrival rate at the current time only parametrises the distribution; the sequence holds
  the values the calls return.
\<close>

definition generateInterArrivalTime :: "real \<Rightarrow> Source \<Rightarrow> real \<times> Source" where
  "generateInterArrivalTime currentTimeHours s =
     (let (x, g) = draw (s_rng s) in (x, s\<lparr>s_rng := g\<rparr>))"

definition createRequest :: "Source \<Rightarrow> int \<Rightarrow> real \<Rightarrow> Request" where
  "createRequest s requestId arrivalTimeHours =
     new_Request requestId (s_priority s) arrivalTimeHours (s_sourceIndex s)"

definition pushEvent :: "Event \<Rightarrow> Controller \<Rightarrow> Controller" where
  "pushEvent ev c = c\<lparr>events := events c @ [ev]\<rparr>"

text \<open>\<open>Source::scheduleNextRequest\<close>, for the source at position \<open>i\<close> of \<open>sources_\<close>.\<close>

definition scheduleNextRequest :: "nat \<Rightarrow> real \<Rightarrow> Controller \<Rightarrow> Controller" where
  "scheduleNextRequest i currentTime c =
     (if generatedRequestsCount c \<ge> maxRequests c then c
      else
        (let (delta, src) = generateInterArrivalTime currentTime (sources c ! i);
             arrivalTime = currentTime + delta;
             c1 = c\<lparr>sources := (sources c)[i := src],
                    globalRequestId := globalRequestId c + 1\<rparr>;
             newReqId = globalRequestId c1;
             newReq = createRequest src newReqId arrivalTime;
             c2 = c1\<lparr>generatedRequestsCount := generatedRequestsCount c1 + 1\<rparr>
         in pushEvent \<lparr>e_type = REQUEST_GENERATED, e_time = arrivalTime,
                        e_request = newReq, e_deviceId = - 1\<rparr> c2))"

section \<open>Controller (Simulation.cpp, lines 342-574)\<close>

text \<open>
  The constructor. The seeds of the generators come from \<open>std::random_device\<close>; they
  are parameters here: \<open>sourceSeeds k\<close> for the source of index \<open>k\<close> and
  \<open>deviceSeeds i\<close> for the device of id \<open>i\<close>. A count that is not positive creates
  nothing.
\<close>

definition make_sources :: "Priority \<Rightarrow> int \<Rightarrow> nat \<Rightarrow> (nat \<Rightarrow> rng) \<Rightarrow> Source list" where
  "make_sources pr n first sourceSeeds =
     map (\<lambda>k. new_Source pr (int k) (sourceSeeds k)) [first ..< first + nat n]"

definition new_Controller ::
  "int \<Rightarrow> int \<Rightarrow> int \<Rightarrow> int \<Rightarrow> int \<Rightarrow> (nat \<Rightarrow> rng) \<Rightarrow> (nat \<Rightarrow> rng) \<Rightarrow> Controller" where
  "new_Controller numCorporate numPremium numFree numDevices maxReq sourceSeeds deviceSeeds =
     (let cs = make_sources CORPORATE numCorporate 0 sourceSeeds;
          ps = make_sources PREMIUM numPremium (length cs) sourceSeeds;
          fs = make_sources FREE numFree (length cs + length ps) sourceSeeds
      in \<lparr>events = [], sources = cs @ ps @ fs,
          devices = map (\<lambda>i. new_Device (int i) (deviceSeeds i)) [1 ..< Suc (nat numDevices)],
          buffer = [], globalRequestId = 0, maxRequests = maxReq,
          generatedRequestsCount = 0, rejectedRequests = 0,
          rejectedByPriority = (\<lambda>_. 0), totalWaitTime = 0, servedRequestsCount = 0,
          lastEventTime = 0\<rparr>)"

text \<open>
  \<open>Controller::initRequests\<close>: the loop over the sources, with its \<open>break\<close>. The
  function returns the sources with their generators advanced.
\<close>

fun initRequests_loop :: "Source list \<Rightarrow> Controller \<Rightarrow> Source list \<times> Controller" where
  "initRequests_loop [] c = ([], c)"
| "initRequests_loop (src # rest) c =
     (if generatedRequestsCount c \<ge> maxRequests c then (src # rest, c)
      else
        (let (interArrival, src') = generateInterArrivalTime 0 src;
             arrivalTime = 0 + interArrival;
             c1 = c\<lparr>globalRequestId := globalRequestId c + 1\<rparr>;
             newReq = createRequest src' (globalRequestId c1) arrivalTime;
             c2 = c1\<lparr>generatedRequestsCount := generatedRequestsCount c1 + 1\<rparr>;
             c3 = pushEvent \<lparr>e_type = REQUEST_GENERATED, e_time = arrivalTime,
                              e_request = newReq, e_deviceId = - 1\<rparr> c2;
             (rest', c4) = initRequests_loop rest c3
         in (src' # rest', c4)))"

definition initRequests :: "Controller \<Rightarrow> Controller" where
  "initRequests c = (let (ss, c') = initRequests_loop (sources c) c in c'\<lparr>sources := ss\<rparr>)"

text \<open>
  \<open>Controller::loadRequestsToFreeDevices\<close>: the loop over the devices, with its
  \<open>break\<close> when the buffer is empty. The function returns the devices as the loop
  leaves them.
\<close>

fun load_loop :: "real \<Rightarrow> Device list \<Rightarrow> Controller \<Rightarrow> Device list \<times> Controller" where
  "load_loop currentTime [] c = ([], c)"
| "load_loop currentTime (device # rest) c =
     (if \<not> d_busy device then
        (case popRequest c of
           (None, c1) \<Rightarrow> (device # rest, c1)
         | (Some nextReq, c1) \<Rightarrow>
             (let (device', nextReq') = loadRequest nextReq currentTime device;
                  waitTime = currentTime - r_bufferEnterTime nextReq';
                  c2 = c1\<lparr>totalWaitTime := totalWaitTime c1 + waitTime,
                         servedRequestsCount := servedRequestsCount c1 + 1\<rparr>;
                  serviceDuration = d_serviceTimeHours device';
                  c3 = pushEvent \<lparr>e_type = REQUEST_SERVED,
                                   e_time = currentTime + serviceDuration,
                                   e_request = nextReq', e_deviceId = d_id device'\<rparr> c2;
                  (rest', c4) = load_loop currentTime rest c3
              in (device' # rest', c4)))
      else (let (rest', c') = load_loop currentTime rest c in (device # rest', c')))"

definition loadRequestsToFreeDevices :: "real \<Rightarrow> Controller \<Rightarrow> Controller" where
  "loadRequestsToFreeDevices currentTime c =
     (let (ds, c') = load_loop currentTime (devices c) c in c'\<lparr>devices := ds\<rparr>)"

definition updateLastEventTime :: "real \<Rightarrow> Controller \<Rightarrow> Controller" where
  "updateLastEventTime t c = (if t > lastEventTime c then c\<lparr>lastEventTime := t\<rparr> else c)"

definition handleRequestGenerated :: "Request \<Rightarrow> real \<Rightarrow> Controller \<Rightarrow> Controller" where
  "handleRequestGenerated req currentTime c =
     (let (added, c1) = addRequest req c;
          c2 = (if \<not> added then c1 else loadRequestsToFreeDevices currentTime c1);
          srcIdx = r_sourceIndex req
      in if srcIdx \<ge> 0 \<and> srcIdx < int (length (sources c2))
         then scheduleNextRequest (nat srcIdx) currentTime c2
         else c2)"

text \<open>
  \<open>Controller::handleRequestFinished\<close>. The access \<open>devices_[deviceId - 1]\<close> is
  unchecked; outside the vector the behaviour is undefined, which is \<open>None\<close> here.
\<close>

definition handleRequestFinished :: "int \<Rightarrow> real \<Rightarrow> Request \<Rightarrow> Controller \<Rightarrow> Controller option" where
  "handleRequestFinished deviceId currentTime req c =
     (if 1 \<le> deviceId \<and> deviceId \<le> int (length (devices c)) then
        (let i = nat (deviceId - 1);
             c1 = c\<lparr>devices := (devices c)[i := freeDevice currentTime (devices c ! i)]\<rparr>
         in Some (loadRequestsToFreeDevices currentTime c1))
      else None)"

text \<open>
  The top of the priority queue: \<open>Event::operator<\<close> is \<open>time > other.time\<close>, so
  the top is an event that no other event precedes in time. Among several earliest events
  the heap's choice is not fixed by the source, and every one of them may be the top.
\<close>

definition is_top :: "Event list \<Rightarrow> Event \<Rightarrow> bool" where
  "is_top es e = (e \<in> set es \<and> (\<forall>e'\<in>set es. e_time e \<le> e_time e'))"

text \<open>The body of the loop of \<open>Controller::work\<close> once the top event is known.\<close>

definition work_body :: "Event \<Rightarrow> Controller \<Rightarrow> Controller option" where
  "work_body currentEvent c =
     (let c1 = c\<lparr>events := remove1 currentEvent (events c)\<rparr>;
          currentTime = e_time currentEvent;
          c2 = updateLastEventTime currentTime c1
      in if e_type currentEvent = REQUEST_GENERATED
         then Some (handleRequestGenerated (e_request currentEvent) currentTime c2)
         else if e_type currentEvent = REQUEST_SERVED
         then handleRequestFinished (e_deviceId currentEvent) currentTime
                (e_request currentEvent) c2
         else Some c2)"

text \<open>
  One iteration of the loop of \<open>Controller::work\<close>: the loop condition holds, the queue
  is not empty, and the body runs on a top event.
\<close>

definition work_iter :: "Controller \<Rightarrow> Controller \<Rightarrow> bool" where
  "work_iter c c' =
     (servedRequestsCount c < maxRequests c
      \<and> (\<exists>e\<in>set (events c). is_top (events c) e \<and> work_body e c = Some c'))"

text \<open>
  \<open>Controller::work\<close> started in \<open>c\<close> returns in \<open>c'\<close>: some iterations lead from
  \<open>c\<close> to \<open>c'\<close>, where the loop is left (the target is met, or the queue is empty).
\<close>

definition work_returns :: "Controller \<Rightarrow> Controller \<Rightarrow> bool" where
  "work_returns c c' =
     (work_iter\<^sup>*\<^sup>* c c'
      \<and> (\<not> servedRequestsCount c' < maxRequests c' \<or> events c' = []))"

text \<open>
  The state in which \<open>main\<close> calls \<open>work\<close>: the constructor followed by
  \<open>initRequests\<close>; and the states a run passes at the head of the loop.
\<close>

definition run_start ::
  "int \<Rightarrow> int \<Rightarrow> int \<Rightarrow> int \<Rightarrow> int \<Rightarrow> (nat \<Rightarrow> rng) \<Rightarrow> (nat \<Rightarrow> rng) \<Rightarrow> Controller" where
  "run_start numCorporate numPremium numFree numDevices maxReq sourceSeeds deviceSeeds =
     initRequests
       (new_Controller numCorporate numPremium numFree numDevices maxReq sourceSeeds deviceSeeds)"

definition reachable :: "Controller \<Rightarrow> bool" where
  "reachable c =
     (\<exists>numCorporate numPremium numFree numDevices maxReq sourceSeeds deviceSeeds.
        work_iter\<^sup>*\<^sup>*
          (run_start numCorporate numPremium numFree numDevices maxReq sourceSeeds deviceSeeds) c)"

section \<open>Quantities of a run\<close>

text \<open>
  The events of each kind waiting in the queue, the requests loaded on devices, the requests
  that have been dispatched (they are held by a completion event or by a device), and all
  requests the controller holds anywhere.
\<close>

definition pending_arrivals :: "Controller \<Rightarrow> nat" where
  "pending_arrivals c = length (filter (\<lambda>e. e_type e = REQUEST_GENERATED) (events c))"

definition pending_completions :: "Controller \<Rightarrow> nat" where
  "pending_completions c = length (filter (\<lambda>e. e_type e = REQUEST_SERVED) (events c))"

definition loaded_requests :: "Controller \<Rightarrow> Request list" where
  "loaded_requests c =
     concat (map (\<lambda>d. case d_currentRequest d of None \<Rightarrow> [] | Some r \<Rightarrow> [r]) (devices c))"

definition dispatched_requests :: "Controller \<Rightarrow> Request list" where
  "dispatched_requests c =
     map e_request (filter (\<lambda>e. e_type e = REQUEST_SERVED) (events c)) @ loaded_requests c"

definition held_requests :: "Controller \<Rightarrow> Request list" where
  "held_requests c = map e_request (events c) @ buffer c @ loaded_requests c"

text \<open>The requests resident in the buffer or loaded on a device, counted.\<close>

definition resident :: "Controller \<Rightarrow> nat" where
  "resident c = length (buffer c) + length (loaded_requests c)"

text \<open>
  The conservation law the counters obey, and the facts about the counters that hold with
  it at the head of the loop.
\<close>

definition conservation :: "Controller \<Rightarrow> bool" where
  "conservation c =
     (generatedRequestsCount c =
        servedRequestsCount c + rejectedRequests c + int (length (buffer c))
        + int (pending_arrivals c))"

definition counters_ok :: "Controller \<Rightarrow> bool" where
  "counters_ok c =
     (conservation c \<and> 0 \<le> servedRequestsCount c \<and> 0 \<le> rejectedRequests c
      \<and> generatedRequestsCount c \<le> max 0 (maxRequests c)
      \<and> globalRequestId c = generatedRequestsCount c)"

text \<open>
  The per-priority rejected counters are non-negative and add up to the global rejected
  counter.
\<close>

definition priority_split :: "Controller \<Rightarrow> bool" where
  "priority_split c =
     (0 \<le> rejectedByPriority c CORPORATE \<and> 0 \<le> rejectedByPriority c PREMIUM
      \<and> 0 \<le> rejectedByPriority c FREE
      \<and> rejectedByPriority c CORPORATE + rejectedByPriority c PREMIUM
          + rejectedByPriority c FREE = rejectedRequests c)"

text \<open>
  The defect of the conservation law, and a measure that every iteration of the loop
  decreases: three units per request still to be generated or still to arrive, two per
  request in the buffer, one per completion still to come.
\<close>

definition balance :: "Controller \<Rightarrow> int" where
  "balance c =
     generatedRequestsCount c - int (pending_arrivals c) - servedRequestsCount c
     - rejectedRequests c - int (length (buffer c))"

definition weight :: "Controller \<Rightarrow> nat" where
  "weight c = 2 * length (buffer c) + pending_completions c"

definition credit :: "Controller \<Rightarrow> nat" where
  "credit c = 3 * nat (maxRequests c - generatedRequestsCount c) + 3 * pending_arrivals c"

definition work_measure :: "Controller \<Rightarrow> nat" where
  "work_measure c = credit c + weight c"

text \<open>
  The devices carry the ids 1, 2, ... in the order of the vector, and every completion
  event names one of them.
\<close>

definition device_ids_ok :: "Controller \<Rightarrow> bool" where
  "device_ids_ok c =
     (map d_id (devices c) = map int [1 ..< Suc (length (devices c))]
      \<and> (\<forall>e\<in>set (events c). e_type e = REQUEST_SERVED \<longrightarrow>
            1 \<le> e_deviceId e \<and> e_deviceId e \<le> int (length (devices c))))"

text \<open>
  Every request the controller holds has its \<open>bufferEnterTime\<close> equal to its
  \<open>arrivalTime\<close>.
\<close>

definition enter_stamped :: "Controller \<Rightarrow> bool" where
  "enter_stamped c = (\<forall>r\<in>set (held_requests c). r_bufferEnterTime r = r_arrivalTime r)"

text \<open>
  The order of the three timestamps of a request, and the facts about times that hold at
  the head of the loop: no event in the queue is earlier than the last event processed, an
  arrival event carries the arrival time of its request, the requests in the buffer have
  arrived, the dispatched requests have their timestamps in order, and the draws of all
  generators are non-negative (draws of exponential distributions are).
\<close>

definition wait_ok :: "Request \<Rightarrow> bool" where
  "wait_ok r =
     (r_arrivalTime r \<le> r_bufferEnterTime r \<and> r_bufferEnterTime r \<le> r_startServiceTime r)"

definition rngs_nonneg :: "Controller \<Rightarrow> bool" where
  "rngs_nonneg c =
     ((\<forall>d\<in>set (devices c). \<forall>n. 0 \<le> d_rng d n) \<and> (\<forall>s\<in>set (sources c). \<forall>n. 0 \<le> s_rng s n))"

definition times_ok :: "Controller \<Rightarrow> bool" where
  "times_ok c =
     ((\<forall>e\<in>set (events c). lastEventTime c \<le> e_time e
          \<and> (e_type e = REQUEST_GENERATED \<longrightarrow> r_arrivalTime (e_request e) = e_time e))
      \<and> (\<forall>r\<in>set (buffer c). r_bufferEnterTime r = r_arrivalTime r
            \<and> r_arrivalTime r \<le> lastEventTime c)
      \<and> (\<forall>r\<in>set (dispatched_requests c). wait_ok r)
      \<and> rngs_nonneg c)"

section \<open>Example inputs\<close>

text \<open>Concrete states and requests on which the theorems below are evaluated.\<close>

definition empty_Controller :: Controller where
  "empty_Controller =
     \<lparr>events = [], sources = [], devices = [], buffer = [], globalRequestId = 0,
      maxRequests = 0, generatedRequestsCount = 0, rejectedRequests = 0,
      rejectedByPriority = (\<lambda>_. 0), totalWaitTime = 0, servedRequestsCount = 0,
      lastEventTime = 0\<rparr>"

definition requests_of :: "Priority \<Rightarrow> int list \<Rightarrow> Request list" where
  "requests_of pr ks = map (\<lambda>k. new_Request k pr (of_int k) 0) ks"

definition tiered_buffer :: "Request list" where
  "tiered_buffer =
     requests_of CORPORATE [1, 2] @ requests_of PREMIUM [3, 4, 5] @ requests_of FREE [6, 7, 8]"

text \<open>
  A small run: one CORPORATE source, one device, a target of one request, and generators
  whose every draw is 1. The arrival at time 1 is admitted and dispatched at once, which
  meets the target; \<open>demo_final\<close> is the state in which \<open>work\<close> returns.
\<close>

definition unit_seeds :: "nat \<Rightarrow> rng" where
  "unit_seeds = (\<lambda>_ _. 1)"

definition demo_start :: Controller where
  "demo_start = run_start 1 0 0 1 1 unit_seeds unit_seeds"

definition demo_request :: Request where
  "demo_request =
     \<lparr>r_id = 1, r_priority = CORPORATE, r_arrivalTime = 1, r_sourceIndex = 0,
      r_bufferEnterTime = 1, r_startServiceTime = 1\<rparr>"

definition demo_final :: Controller where
  "demo_final =
     \<lparr>events = [\<lparr>e_type = REQUEST_SERVED, e_time = 2, e_request = demo_request,
                  e_deviceId = 1\<rparr>],
      sources = [\<lparr>s_priority = CORPORATE, s_sourceIndex = 0, s_rng = (\<lambda>_. 1)\<rparr>],
      devices = [\<lparr>d_id = 1, d_busy = True, d_finishTime = 2, d_busyTotalTime = 0,
                   d_startBusyTime = 1, d_currentRequest = Some demo_request,
                   d_serviceTimeHours = 1, d_rng = (\<lambda>_. 1)\<rparr>],
      buffer = [], globalRequestId = 1, maxRequests = 1, generatedRequestsCount = 1,
      rejectedRequests = 0, rejectedByPriority = (\<lambda>_. 0), totalWaitTime = 0,
      servedRequestsCount = 1, lastEventTime = 1\<rparr>"

text \<open>A state with two requests in the buffer and one idle device, for a sweep at time 3.\<close>

definition sweep_demo :: Controller where
  "sweep_demo =
     empty_Controller
       \<lparr>buffer := [new_Request 7 FREE (3 / 2) 0, new_Request 8 FREE 2 0],
        devices := [new_Device 1 (unit_seeds 1)]\<rparr>"

section \<open>The buffer: capacity, admission on a full buffer, ordering\<close>

lemma find_if_le: "find_if P xs \<le> length xs"
  by (induction xs) auto

lemma find_if_less_iff: "find_if P xs < length xs \<longleftrightarrow> (\<exists>x\<in>set xs. P x)"
  by (induction xs) auto

lemma find_if_neq_iff: "find_if P xs \<noteq> length xs \<longleftrightarrow> (\<exists>x\<in>set xs. P x)"
  using find_if_less_iff [of P xs] find_if_le [of P xs] by auto

lemma find_if_sat: "find_if P xs < length xs \<Longrightarrow> P (xs ! find_if P xs)"
  by (induction xs) auto

lemma find_if_first: "j < find_if P xs \<Longrightarrow> \<not> P (xs ! j)"
proof (induction xs arbitrary: j)
  case Nil
  then show ?case by simp
next
  case (Cons x xs)
  then show ?case by (cases j) (auto split: if_splits)
qed

lemma length_erase_at: "i < length xs \<Longrightarrow> length (erase_at i xs) = length xs - 1"
  by (simp add: erase_at_def)

lemma length_insert_at: "length (insert_at i x xs) = Suc (length xs)"
  by (simp add: insert_at_def)

lemma reject_eq:
  "reject pr c =
     (False, c\<lparr>rejectedRequests := rejectedRequests c + 1,
               rejectedByPriority := (rejectedByPriority c)(pr := rejectedByPriority c pr + 1)\<rparr>)"
  by (simp add: reject_def incrementRejectedRequests_def incrementRejectedByPriority_def)

lemma evict_eq:
  "evict i req c =
     (True, c\<lparr>buffer := erase_at i (buffer c) @ [stamp_enter req],
              rejectedRequests := rejectedRequests c + 1,
              rejectedByPriority := (rejectedByPriority c)
                (r_priority (buffer c ! i) := rejectedByPriority c (r_priority (buffer c ! i)) + 1)\<rparr>)"
  by (simp add: evict_def Let_def incrementRejectedRequests_def incrementRejectedByPriority_def)

lemma addRequest_full_FREE:
  "\<not> length (buffer c) < BUFFER_SIZE \<Longrightarrow> r_priority req = FREE \<Longrightarrow>
   addRequest req c = reject FREE c"
  by (simp add: addRequest_def)

lemma addRequest_full_CORPORATE:
  "\<not> length (buffer c) < BUFFER_SIZE \<Longrightarrow> r_priority req = CORPORATE \<Longrightarrow>
   addRequest req c =
     (if \<exists>r\<in>set (buffer c). r_priority r = FREE
      then evict (find_if (\<lambda>r. r_priority r = FREE) (buffer c)) req c
      else if \<exists>r\<in>set (buffer c). r_priority r = PREMIUM
      then evict (find_if (\<lambda>r. r_priority r = PREMIUM) (buffer c)) req c
      else reject CORPORATE c)"
  by (simp add: addRequest_def Let_def find_if_neq_iff)

lemma addRequest_full_PREMIUM:
  "\<not> length (buffer c) < BUFFER_SIZE \<Longrightarrow> r_priority req = PREMIUM \<Longrightarrow>
   addRequest req c =
     (if \<exists>r\<in>set (buffer c). r_priority r = FREE
      then evict (find_if (\<lambda>r. r_priority r = FREE) (buffer c)) req c
      else reject PREMIUM c)"
  by (simp add: addRequest_def Let_def find_if_neq_iff)

lemma addRequest_not_full:
  "length (buffer c) < BUFFER_SIZE \<Longrightarrow>
   addRequest req c =
     (True, c\<lparr>buffer := insert_at (find_if (insertion_point req) (buffer c))
                            (stamp_enter req) (buffer c)\<rparr>)"
  by (simp add: addRequest_def Let_def)

text \<open>The four ways a call of addRequest can end.\<close>

lemma addRequest_cases:
  obtains
    (insert) "length (buffer c) < BUFFER_SIZE"
      "addRequest req c =
         (True, c\<lparr>buffer := insert_at (find_if (insertion_point req) (buffer c))
                            (stamp_enter req) (buffer c)\<rparr>)"
  | (evict) i where "\<not> length (buffer c) < BUFFER_SIZE" "i < length (buffer c)"
      "addRequest req c = evict i req c"
  | (reject) "\<not> length (buffer c) < BUFFER_SIZE"
      "addRequest req c = reject (r_priority req) c"
proof (cases "length (buffer c) < BUFFER_SIZE")
  case True
  then show ?thesis using insert addRequest_not_full by blast
next
  case False
  show ?thesis
  proof (cases "r_priority req")
    case FREE
    then show ?thesis using False reject addRequest_full_FREE by simp
  next
    case PREMIUM
    show ?thesis
    proof (cases "\<exists>r\<in>set (buffer c). r_priority r = FREE")
      case True
      then have "find_if (\<lambda>r. r_priority r = FREE) (buffer c) < length (buffer c)"
        by (simp add: find_if_less_iff)
      then show ?thesis
        using evict [of "find_if (\<lambda>r. r_priority r = FREE) (buffer c)"] False True
          addRequest_full_PREMIUM [OF False PREMIUM] by simp
    next
      case nofree: False
      then show ?thesis
        using reject False PREMIUM addRequest_full_PREMIUM [OF False PREMIUM] by simp
    qed
  next
    case CORPORATE
    show ?thesis
    proof (cases "\<exists>r\<in>set (buffer c). r_priority r = FREE")
      case True
      then have "find_if (\<lambda>r. r_priority r = FREE) (buffer c) < length (buffer c)"
        by (simp add: find_if_less_iff)
      then show ?thesis
        using evict [of "find_if (\<lambda>r. r_priority r = FREE) (buffer c)"] False True
          addRequest_full_CORPORATE [OF False CORPORATE] by simp
    next
      case nofree: False
      show ?thesis
      proof (cases "\<exists>r\<in>set (buffer c). r_priority r = PREMIUM")
        case True
        then have "find_if (\<lambda>r. r_priority r = PREMIUM) (buffer c) < length (buffer c)"
          by (simp add: find_if_less_iff)
        then show ?thesis
          using evict [of "find_if (\<lambda>r. r_priority r = PREMIUM) (buffer c)"] False True nofree
            addRequest_full_CORPORATE [OF False CORPORATE] by simp
      next
        case False2: False
        then show ?thesis
          using reject False nofree CORPORATE addRequest_full_CORPORATE [OF False CORPORATE]
          by simp
      qed
    qed
  qed
qed

lemma addRequest_length_le:
  assumes "length (buffer c) \<le> BUFFER_SIZE"
  shows "length (buffer (snd (addRequest req c))) \<le> BUFFER_SIZE"
proof (cases rule: addRequest_cases [of c req])
  case insert
  then show ?thesis by (simp add: length_insert_at)
next
  case (evict i)
  then show ?thesis using assms by (simp add: evict_eq length_erase_at)
next
  case reject
  then show ?thesis using assms by (simp add: reject_eq)
qed

lemma popRequest_length_le:
  "length (buffer (snd (popRequest c))) \<le> length (buffer c)"
  by (simp add: popRequest_def split: list.splits)

lemma buffer_calls_length_le:
  "length (buffer c) \<le> BUFFER_SIZE \<Longrightarrow> length (buffer (buffer_calls calls c)) \<le> BUFFER_SIZE"
proof (induction calls arbitrary: c)
  case Nil
  then show ?case by simp
next
  case (Cons x xs)
  have "length (buffer (buffer_call x c)) \<le> BUFFER_SIZE"
  proof (cases x)
    case (AddRequest req)
    then show ?thesis using Cons.prems by (simp add: addRequest_length_le)
  next
    case PopRequest
    then show ?thesis using Cons.prems popRequest_length_le [of c] by simp
  qed
  then show ?case using Cons.IH by simp
qed

text \<open>
  C5. Starting from the empty buffer, after every call of a sequence of \<open>addRequest\<close>
  and \<open>popRequest\<close> calls (that is, after every prefix of the sequence) the buffer holds
  at most 8 requests.
\<close>

theorem capacity_invariant:
  "buffer c = [] \<Longrightarrow> length (buffer (buffer_calls (take n calls) c)) \<le> 8"
  using buffer_calls_length_le [of c "take n calls"] by (simp add: BUFFER_SIZE_def)

lemmas buffer_eval =
  requests_of_def new_Request_def empty_Controller_def addRequest_def BUFFER_SIZE_def
  insertion_point_def insert_at_def Let_def stamp_enter_def evict_def erase_at_def reject_def
  incrementRejectedRequests_def incrementRejectedByPriority_def popRequest_def

theorem capacity_invariant_witness:
  "buffer empty_Controller = [] \<and>
   length (buffer (buffer_calls (take 11
     (map AddRequest (requests_of FREE [1, 2, 3, 4, 5, 6, 7, 8, 9] @ requests_of CORPORATE [10])
      @ [PopRequest, PopRequest]))
     empty_Controller)) \<le> 8"
  using capacity_invariant [of empty_Controller 11
     "map AddRequest (requests_of FREE [1, 2, 3, 4, 5, 6, 7, 8, 9] @ requests_of CORPORATE [10])
      @ [PopRequest, PopRequest]"]
  by (simp add: empty_Controller_def)

text \<open>
  The rejected counters after a call of addRequest: each is at most one higher, so
  counters below \<open>INT_MAX\<close> stay in the range of \<open>int\<close>.
\<close>

lemma addRequest_rejected_le:
  assumes "addRequest req c = (added, c')"
  shows "rejectedRequests c' \<le> rejectedRequests c + 1
         \<and> rejectedByPriority c' p \<le> rejectedByPriority c p + 1"
proof (cases rule: addRequest_cases [of c req])
  case insert
  then show ?thesis using assms by auto
next
  case (evict i)
  then show ?thesis using assms by (auto simp: evict_eq)
next
  case reject
  then show ?thesis using assms by (auto simp: reject_eq)
qed

lemma addRequest_in_int_range:
  assumes "rejectedRequests c < INT_MAX"
    and "rejectedByPriority c CORPORATE < INT_MAX"
    and "rejectedByPriority c PREMIUM < INT_MAX"
    and "rejectedByPriority c FREE < INT_MAX"
  shows "rejectedRequests (snd (addRequest req c)) \<le> INT_MAX
         \<and> rejectedByPriority (snd (addRequest req c)) p \<le> INT_MAX"
proof -
  obtain added c' where a: "addRequest req c = (added, c')" by fastforce
  have "rejectedByPriority c p < INT_MAX" using assms(2-4) by (cases p) simp_all
  then show ?thesis
    using addRequest_rejected_le [OF a, of p] assms(1) by (simp add: a)
qed

text \<open>
  C4. On a full buffer (length 8), with the global and the FREE rejected counter below
  \<open>INT_MAX\<close>, the admission of a FREE request returns false; the resulting controller
  is the one before the call with the global rejected counter and the FREE rejected
  counter one higher (both within the range of \<open>int\<close>), so the buffer and everything
  else are unchanged.
\<close>

theorem addRequest_FREE_full:
  assumes "length (buffer c) = 8" and "r_priority req = FREE"
    and "rejectedRequests c < INT_MAX" and "rejectedByPriority c FREE < INT_MAX"
  shows "addRequest req c =
           (False, c\<lparr>rejectedRequests := rejectedRequests c + 1,
                     rejectedByPriority :=
                       (rejectedByPriority c)(FREE := rejectedByPriority c FREE + 1)\<rparr>)
         \<and> rejectedRequests c + 1 \<le> INT_MAX \<and> rejectedByPriority c FREE + 1 \<le> INT_MAX"
  using assms by (simp add: addRequest_full_FREE BUFFER_SIZE_def reject_eq)

theorem addRequest_FREE_full_witness:
  "length (buffer (empty_Controller\<lparr>buffer := requests_of PREMIUM [1, 2, 3, 4, 5, 6, 7, 8]\<rparr>)) = 8
   \<and> r_priority (new_Request 9 FREE 9 0) = FREE
   \<and> rejectedRequests (empty_Controller\<lparr>buffer := requests_of PREMIUM [1, 2, 3, 4, 5, 6, 7, 8]\<rparr>)
        < INT_MAX
   \<and> rejectedByPriority
        (empty_Controller\<lparr>buffer := requests_of PREMIUM [1, 2, 3, 4, 5, 6, 7, 8]\<rparr>) FREE
        < INT_MAX
   \<and> addRequest (new_Request 9 FREE 9 0)
        (empty_Controller\<lparr>buffer := requests_of PREMIUM [1, 2, 3, 4, 5, 6, 7, 8]\<rparr>) =
       (False, empty_Controller\<lparr>buffer := requests_of PREMIUM [1, 2, 3, 4, 5, 6, 7, 8],
                 rejectedRequests := 1, rejectedByPriority := (\<lambda>_. 0)(FREE := 1)\<rparr>)"
  using addRequest_FREE_full [of "empty_Controller\<lparr>buffer := requests_of PREMIUM [1, 2, 3, 4, 5, 6, 7, 8]\<rparr>"
      "new_Request 9 FREE 9 0"]
  by (simp add: requests_of_def new_Request_def empty_Controller_def INT_MAX_def)

lemma first_position:
  assumes "\<exists>x\<in>set xs. P x"
  shows "find_if P xs < length xs \<and> P (xs ! find_if P xs) \<and> (\<forall>j<find_if P xs. \<not> P (xs ! j))"
  using assms find_if_less_iff [of P xs] find_if_sat [of P xs] find_if_first [of _ P xs] by blast

text \<open>
  C2. On a full buffer (length 8), with the rejected counters below \<open>INT_MAX\<close>, the
  admission of a CORPORATE request: if a FREE occupant is present, the first FREE occupant
  (position \<open>i\<close>, none before it) is removed, the request is appended, and the global
  and the FREE rejected counters go up by one; else if a PREMIUM occupant is present, the
  same with the first PREMIUM occupant and the PREMIUM counter; the call is rejected
  exactly when all occupants are CORPORATE; the length stays 8, and the rejected counters
  stay within the range of \<open>int\<close>.
\<close>

theorem addRequest_CORPORATE_full:
  assumes "length (buffer c) = 8" and "r_priority req = CORPORATE"
    and "rejectedRequests c < INT_MAX"
    and "rejectedByPriority c CORPORATE < INT_MAX"
    and "rejectedByPriority c PREMIUM < INT_MAX"
    and "rejectedByPriority c FREE < INT_MAX"
  shows "((\<exists>r\<in>set (buffer c). r_priority r = FREE) \<longrightarrow>
            (\<exists>i<8. r_priority (buffer c ! i) = FREE
               \<and> (\<forall>j<i. r_priority (buffer c ! j) \<noteq> FREE)
               \<and> addRequest req c =
                   (True, c\<lparr>buffer := take i (buffer c) @ drop (Suc i) (buffer c) @ [stamp_enter req],
                            rejectedRequests := rejectedRequests c + 1,
                            rejectedByPriority :=
                              (rejectedByPriority c)(FREE := rejectedByPriority c FREE + 1)\<rparr>)))
       \<and> ((\<forall>r\<in>set (buffer c). r_priority r \<noteq> FREE) \<and> (\<exists>r\<in>set (buffer c). r_priority r = PREMIUM) \<longrightarrow>
            (\<exists>i<8. r_priority (buffer c ! i) = PREMIUM
               \<and> (\<forall>j<i. r_priority (buffer c ! j) \<noteq> PREMIUM)
               \<and> addRequest req c =
                   (True, c\<lparr>buffer := take i (buffer c) @ drop (Suc i) (buffer c) @ [stamp_enter req],
                            rejectedRequests := rejectedRequests c + 1,
                            rejectedByPriority :=
                              (rejectedByPriority c)(PREMIUM := rejectedByPriority c PREMIUM + 1)\<rparr>)))
       \<and> ((\<forall>r\<in>set (buffer c). r_priority r = CORPORATE) \<longrightarrow>
            addRequest req c =
              (False, c\<lparr>rejectedRequests := rejectedRequests c + 1,
                        rejectedByPriority :=
                          (rejectedByPriority c)(CORPORATE := rejectedByPriority c CORPORATE + 1)\<rparr>))
       \<and> (fst (addRequest req c) = (\<exists>r\<in>set (buffer c). r_priority r \<noteq> CORPORATE))
       \<and> length (buffer (snd (addRequest req c))) = 8
       \<and> rejectedRequests (snd (addRequest req c)) \<le> INT_MAX
       \<and> rejectedByPriority (snd (addRequest req c)) p \<le> INT_MAX"
proof -
  let ?b = "buffer c"
  have full: "\<not> length ?b < BUFFER_SIZE" using assms(1) by (simp add: BUFFER_SIZE_def)
  note eq = addRequest_full_CORPORATE [OF full assms(2)]
  have A: "\<exists>i<8. r_priority (?b ! i) = FREE \<and> (\<forall>j<i. r_priority (?b ! j) \<noteq> FREE)
             \<and> addRequest req c =
                 (True, c\<lparr>buffer := take i ?b @ drop (Suc i) ?b @ [stamp_enter req],
                          rejectedRequests := rejectedRequests c + 1,
                          rejectedByPriority :=
                            (rejectedByPriority c)(FREE := rejectedByPriority c FREE + 1)\<rparr>)"
    if ex: "\<exists>r\<in>set ?b. r_priority r = FREE"
  proof -
    let ?i = "find_if (\<lambda>r. r_priority r = FREE) ?b"
    from first_position [OF ex]
    have i: "?i < length ?b" "r_priority (?b ! ?i) = FREE" "\<forall>j<?i. r_priority (?b ! j) \<noteq> FREE"
      by blast+
    have "addRequest req c = evict ?i req c" using eq ex by simp
    then have "addRequest req c =
                 (True, c\<lparr>buffer := take ?i ?b @ drop (Suc ?i) ?b @ [stamp_enter req],
                          rejectedRequests := rejectedRequests c + 1,
                          rejectedByPriority :=
                            (rejectedByPriority c)(FREE := rejectedByPriority c FREE + 1)\<rparr>)"
      using i(2) by (simp add: evict_eq erase_at_def)
    with i assms(1) show ?thesis by auto
  qed
  have B: "\<exists>i<8. r_priority (?b ! i) = PREMIUM \<and> (\<forall>j<i. r_priority (?b ! j) \<noteq> PREMIUM)
             \<and> addRequest req c =
                 (True, c\<lparr>buffer := take i ?b @ drop (Suc i) ?b @ [stamp_enter req],
                          rejectedRequests := rejectedRequests c + 1,
                          rejectedByPriority :=
                            (rejectedByPriority c)(PREMIUM := rejectedByPriority c PREMIUM + 1)\<rparr>)"
    if nofree: "\<forall>r\<in>set ?b. r_priority r \<noteq> FREE" and ex: "\<exists>r\<in>set ?b. r_priority r = PREMIUM"
  proof -
    let ?i = "find_if (\<lambda>r. r_priority r = PREMIUM) ?b"
    from first_position [OF ex]
    have i: "?i < length ?b" "r_priority (?b ! ?i) = PREMIUM"
      "\<forall>j<?i. r_priority (?b ! j) \<noteq> PREMIUM"
      by blast+
    have "addRequest req c = evict ?i req c" using eq ex nofree by simp
    then have "addRequest req c =
                 (True, c\<lparr>buffer := take ?i ?b @ drop (Suc ?i) ?b @ [stamp_enter req],
                          rejectedRequests := rejectedRequests c + 1,
                          rejectedByPriority :=
                            (rejectedByPriority c)(PREMIUM := rejectedByPriority c PREMIUM + 1)\<rparr>)"
      using i(2) by (simp add: evict_eq erase_at_def)
    with i assms(1) show ?thesis by auto
  qed
  have C: "addRequest req c =
              (False, c\<lparr>rejectedRequests := rejectedRequests c + 1,
                        rejectedByPriority :=
                          (rejectedByPriority c)(CORPORATE := rejectedByPriority c CORPORATE + 1)\<rparr>)"
    if allc: "\<forall>r\<in>set ?b. r_priority r = CORPORATE"
  proof -
    have "\<not> (\<exists>r\<in>set ?b. r_priority r = FREE)" "\<not> (\<exists>r\<in>set ?b. r_priority r = PREMIUM)"
      using allc by auto
    then show ?thesis using eq by (simp add: reject_eq)
  qed
  have split: "(\<exists>r\<in>set ?b. r_priority r = FREE)
      \<or> ((\<forall>r\<in>set ?b. r_priority r \<noteq> FREE) \<and> (\<exists>r\<in>set ?b. r_priority r = PREMIUM))
      \<or> (\<forall>r\<in>set ?b. r_priority r = CORPORATE)"
    by (metis Priority.exhaust)
  have D: "fst (addRequest req c) = (\<exists>r\<in>set ?b. r_priority r \<noteq> CORPORATE)"
    using split A B C by (elim disjE) (auto, fastforce+)
  have E: "length (buffer (snd (addRequest req c))) = 8"
    using split A B C assms(1) by (elim disjE) auto
  have F: "rejectedRequests (snd (addRequest req c)) \<le> INT_MAX
           \<and> rejectedByPriority (snd (addRequest req c)) p \<le> INT_MAX"
    using assms(3-6) by (rule addRequest_in_int_range)
  show ?thesis using A B C D E F by blast
qed


theorem addRequest_CORPORATE_full_witness:
  "length (buffer (empty_Controller\<lparr>buffer := tiered_buffer\<rparr>)) = 8
   \<and> r_priority (new_Request 9 CORPORATE 9 0) = CORPORATE
   \<and> rejectedRequests (empty_Controller\<lparr>buffer := tiered_buffer\<rparr>) < INT_MAX
   \<and> rejectedByPriority (empty_Controller\<lparr>buffer := tiered_buffer\<rparr>) CORPORATE < INT_MAX
   \<and> rejectedByPriority (empty_Controller\<lparr>buffer := tiered_buffer\<rparr>) PREMIUM < INT_MAX
   \<and> rejectedByPriority (empty_Controller\<lparr>buffer := tiered_buffer\<rparr>) FREE < INT_MAX
   \<and> (\<exists>r\<in>set (buffer (empty_Controller\<lparr>buffer := tiered_buffer\<rparr>)). r_priority r = FREE)
   \<and> fst (addRequest (new_Request 9 CORPORATE 9 0) (empty_Controller\<lparr>buffer := tiered_buffer\<rparr>))
   \<and> length (buffer (snd (addRequest (new_Request 9 CORPORATE 9 0)
        (empty_Controller\<lparr>buffer := tiered_buffer\<rparr>)))) = 8
   \<and> map r_id (buffer (snd (addRequest (new_Request 9 CORPORATE 9 0)
        (empty_Controller\<lparr>buffer := tiered_buffer\<rparr>)))) = [1, 2, 3, 4, 5, 7, 8, 9]
   \<and> rejectedRequests (snd (addRequest (new_Request 9 CORPORATE 9 0)
        (empty_Controller\<lparr>buffer := tiered_buffer\<rparr>))) = 1
   \<and> rejectedByPriority (snd (addRequest (new_Request 9 CORPORATE 9 0)
        (empty_Controller\<lparr>buffer := tiered_buffer\<rparr>))) FREE = 1
   \<and> rejectedByPriority (snd (addRequest (new_Request 9 CORPORATE 9 0)
        (empty_Controller\<lparr>buffer := tiered_buffer\<rparr>))) CORPORATE = 0"
  using addRequest_CORPORATE_full [of "empty_Controller\<lparr>buffer := tiered_buffer\<rparr>"
      "new_Request 9 CORPORATE 9 0" FREE]
  by (simp add: tiered_buffer_def buffer_eval INT_MAX_def)

text \<open>
  C1. The ordering does not survive the eviction branch. Eight FREE requests admitted into
  the empty buffer leave it ordered; the admission of a PREMIUM request then evicts the
  first FREE request and pushes the PREMIUM one to the back, behind seven FREE requests.
\<close>

theorem eviction_breaks_ordering:
  "ordered (buffer (buffer_calls (map AddRequest (requests_of FREE [1, 2, 3, 4, 5, 6, 7, 8]))
      empty_Controller))
   \<and> buffer (buffer_calls
        (map AddRequest (requests_of FREE [1, 2, 3, 4, 5, 6, 7, 8] @ requests_of PREMIUM [9]))
        empty_Controller) =
      requests_of FREE [2, 3, 4, 5, 6, 7, 8] @ requests_of PREMIUM [9]
   \<and> \<not> ordered (buffer (buffer_calls
        (map AddRequest (requests_of FREE [1, 2, 3, 4, 5, 6, 7, 8] @ requests_of PREMIUM [9]))
        empty_Controller))"
  by (simp add: buffer_eval ordered_def may_precede_def)

text \<open>
  The other paths do keep the ordering: the insertion below capacity, and the pop.
\<close>

lemma priority_int_inj: "priority_int p = priority_int q \<longleftrightarrow> p = q"
  by (cases p; cases q) simp_all

lemma may_precede_trans: "may_precede a b \<Longrightarrow> may_precede b c \<Longrightarrow> may_precede a c"
  by (auto simp: may_precede_def)

lemma insertion_point_after: "insertion_point req r \<Longrightarrow> may_precede req r"
  using priority_int_inj [of "r_priority req" "r_priority r"]
  by (auto simp: insertion_point_def may_precede_def split: if_splits)

lemma insertion_point_before: "\<not> insertion_point req r \<Longrightarrow> may_precede r req"
  by (auto simp: insertion_point_def may_precede_def split: if_splits)

lemma may_precede_stamp [simp]:
  "may_precede (stamp_enter a) b = may_precede a b"
  "may_precede a (stamp_enter b) = may_precede a b"
  by (simp_all add: may_precede_def stamp_enter_def)

lemma ordered_insert:
  "ordered rs \<Longrightarrow>
   ordered (insert_at (find_if (insertion_point req) rs) (stamp_enter req) rs)"
proof (induction rs)
  case Nil
  then show ?case by (simp add: ordered_def insert_at_def)
next
  case (Cons r rs)
  show ?case
  proof (cases "insertion_point req r")
    case True
    have "may_precede req y" if "y \<in> set rs" for y
      using Cons.prems that insertion_point_after [OF True] may_precede_trans
      by (auto simp: ordered_def)
    then show ?thesis
      using True Cons.prems insertion_point_after [OF True]
      by (auto simp: ordered_def insert_at_def)
  next
    case False
    have "ordered rs" using Cons.prems by (simp add: ordered_def)
    then have IH: "sorted_wrt may_precede
        (take (find_if (insertion_point req) rs) rs @ stamp_enter req # drop (find_if (insertion_point req) rs) rs)"
      using Cons.IH by (simp add: ordered_def insert_at_def)
    have "may_precede r y" if "y \<in> set rs" for y
      using Cons.prems that by (auto simp: ordered_def)
    then have "\<forall>y\<in>set (take (find_if (insertion_point req) rs) rs @ stamp_enter req # drop (find_if (insertion_point req) rs) rs). may_precede r y"
      using insertion_point_before [OF False]
      by (auto dest: in_set_takeD in_set_dropD)
    then show ?thesis using False IH
      by (simp add: ordered_def insert_at_def)
  qed
qed

lemma addRequest_keeps_ordered_below_capacity:
  "length (buffer c) < BUFFER_SIZE \<Longrightarrow> ordered (buffer c) \<Longrightarrow>
   ordered (buffer (snd (addRequest req c)))"
  by (simp add: addRequest_not_full ordered_insert)

lemma popRequest_keeps_ordered:
  "ordered (buffer c) \<Longrightarrow> ordered (buffer (snd (popRequest c)))"
  by (auto simp: popRequest_def ordered_def split: list.splits)

section \<open>The time formatter\<close>

lemma decimal_one_digit: "n < 10 \<Longrightarrow> decimal n = [digit_char n]"
  by (subst decimal.simps) simp

lemma decimal_two_digits:
  "10 \<le> n \<Longrightarrow> n < 100 \<Longrightarrow> decimal n = [digit_char (n div 10), digit_char (n mod 10)]"
  by (subst decimal.simps) (simp add: decimal_one_digit)

lemma printf_02d_nat:
  "k < 100 \<Longrightarrow> printf_02d (int k) = [digit_char (k div 10), digit_char (k mod 10)]"
proof (cases "k < 10")
  case True
  then show ?thesis
    by (simp add: printf_02d_def Let_def decimal_one_digit digit_char_def)
next
  case False
  assume "k < 100"
  with False have "decimal k = [digit_char (k div 10), digit_char (k mod 10)]"
    by (simp add: decimal_two_digits)
  then show ?thesis
    by (simp add: printf_02d_def Let_def)
qed

lemma printf_02d_two_digits: "0 \<le> n \<Longrightarrow> n < 100 \<Longrightarrow> printf_02d n = two_digits n"
  using printf_02d_nat [of "nat n"] by (simp add: two_digits_def)


lemma c_div_nonneg: "0 \<le> a \<Longrightarrow> 0 < b \<Longrightarrow> c_div a b = a div b"
  by (cases "a = 0") (simp_all add: c_div_def)

lemma c_mod_nonneg: "0 \<le> a \<Longrightarrow> 0 < b \<Longrightarrow> c_mod a b = a mod b"
  by (simp add: c_mod_def c_div_nonneg minus_mult_div_eq_mod)

lemma fields_nonneg:
  fixes m :: int
  assumes "0 \<le> m"
  shows "c_mod (c_div m 60) 24 = (m div 60) mod 24" and "c_mod m 60 = m mod 60"
proof -
  have "0 \<le> m div 60" using assms by (simp add: pos_imp_zdiv_nonneg_iff)
  then show "c_mod (c_div m 60) 24 = (m div 60) mod 24"
    using assms by (simp add: c_div_nonneg c_mod_nonneg)
  show "c_mod m 60 = m mod 60"
    using assms by (simp add: c_mod_nonneg)
qed

lemma printf_fields:
  fixes m :: int
  shows "printf_02d ((m div 60) mod 24) = two_digits ((m div 60) mod 24)"
    and "printf_02d (m mod 60) = two_digits (m mod 60)"
proof -
  have "(m div 60) mod 24 < 24" by (rule pos_mod_bound) simp
  then have "(m div 60) mod 24 < 100" by linarith
  moreover have "0 \<le> (m div 60) mod 24" by (rule pos_mod_sign) simp
  ultimately show "printf_02d ((m div 60) mod 24) = two_digits ((m div 60) mod 24)"
    by (rule printf_02d_two_digits [rotated])
  have "m mod 60 < 60" by (rule pos_mod_bound) simp
  then have "m mod 60 < 100" by linarith
  moreover have "0 \<le> m mod 60" by (rule pos_mod_sign) simp
  ultimately show "printf_02d (m mod 60) = two_digits (m mod 60)"
    by (rule printf_02d_two_digits [rotated])
qed

lemma length_two_digits: "length (two_digits n) = 2"
  by (simp add: two_digits_def)

text \<open>Rounding to binary64: the binade of a value, and the rounding of some values.\<close>

lemma pow2_pos: "0 < pow2 k"
  by (simp add: pow2_def)

lemma pow2_powr: "pow2 k = 2 powr (of_int k)"
  by (simp add: pow2_def powr_real_of_int field_simps)

lemma binade_eq:
  assumes "pow2 k \<le> \<bar>x\<bar>" and "\<bar>x\<bar> < pow2 (k + 1)"
  shows "binade x = k"
proof -
  have "0 < \<bar>x\<bar>" using assms(1) pow2_pos [of k] by linarith
  then show ?thesis
    unfolding binade_def using assms
    by (simp add: floor_log_eq_powr_iff pow2_powr)
qed

lemma round_half_even_nonneg: "0 \<le> x \<Longrightarrow> 0 \<le> round_half_even x"
  by (simp add: round_half_even_def Let_def)

lemma round_double_nonneg:
  assumes "0 \<le> x" and "round_double x = Some y"
  shows "0 \<le> y"
proof (cases "x = 0")
  case True
  then show ?thesis using assms(2) by (simp add: round_double_def)
next
  case False
  define ulp where "ulp = pow2 (max (binade x) (- 1022) - 52)"
  have u: "0 < ulp" by (simp add: ulp_def pow2_pos)
  then have "0 \<le> x / ulp" using assms(1) by simp
  then have "0 \<le> round_half_even (x / ulp)" by (rule round_half_even_nonneg)
  then have "0 \<le> of_int (round_half_even (x / ulp)) * ulp" using u by simp
  moreover have "y = of_int (round_half_even (x / ulp)) * ulp"
    using assms(2) False by (simp add: round_double_def Let_def ulp_def split: if_splits)
  ultimately show ?thesis by simp
qed

lemma round_double_binade:
  assumes "pow2 k \<le> \<bar>x\<bar>" and "\<bar>x\<bar> < pow2 (k + 1)" and "- 1022 \<le> k"
  shows "round_double x =
           (if \<bar>of_int (round_half_even (x / pow2 (k - 52))) * pow2 (k - 52)\<bar> < pow2 1024
            then Some (of_int (round_half_even (x / pow2 (k - 52))) * pow2 (k - 52)) else None)"
proof -
  have "x \<noteq> 0" using assms(1) pow2_pos [of k] by auto
  moreover have "max (binade x) (- 1022) = k"
    using binade_eq [OF assms(1,2)] assms(3) by simp
  ultimately show ?thesis by (simp add: round_double_def Let_def)
qed

lemma round_double_1530: "round_double 1530 = Some 1530"
  by (subst round_double_binade [of 10]) (simp_all add: pow2_def round_half_even_def)

lemma round_double_2400000000: "round_double 2400000000 = Some 2400000000"
  by (subst round_double_binade [of 31]) (simp_all add: pow2_def round_half_even_def)

text \<open>
  The doubles written \<open>1.0 / 60\<close> and \<open>0.35\<close>, and the double nearest
  \<open>2 ^ 31 / 60\<close> (about 35791394.1333, and below it); their products with 60 round
  up to the integers 1, 21 and \<open>2 ^ 31\<close>, which the exact products stay below.
\<close>

lemma round_double_sixtieth:
  "round_double (1 / 60) = Some (4803839602528529 / 288230376151711744)"
  by (subst round_double_binade [of "- 6"]) (simp_all add: pow2_def round_half_even_def Let_def)

lemma round_double_sixtieth_times_60:
  "round_double (4803839602528529 / 288230376151711744 * 60) = Some 1"
  by (subst round_double_binade [of "- 1"]) (simp_all add: pow2_def round_half_even_def Let_def)

lemma round_double_035:
  "round_double (35 / 100) = Some (6305039478318694 / 18014398509481984)"
  by (subst round_double_binade [of "- 2"]) (simp_all add: pow2_def round_half_even_def Let_def)

lemma round_double_035_times_60:
  "round_double (6305039478318694 / 18014398509481984 * 60) = Some 21"
  by (subst round_double_binade [of 4]) (simp_all add: pow2_def round_half_even_def Let_def)

lemma round_double_boundary:
  "round_double (4803839602528529 / 134217728) = Some (4803839602528529 / 134217728)"
  by (subst round_double_binade [of 25]) (simp_all add: pow2_def round_half_even_def Let_def)

lemma round_double_boundary_times_60:
  "round_double (4803839602528529 / 134217728 * 60) = Some 2147483648"
  by (subst round_double_binade [of 30]) (simp_all add: pow2_def round_half_even_def Let_def)

lemma formatTime_in_range:
  assumes "0 \<le> h" and "round_double (h * 60) = Some p" and "\<lfloor>p\<rfloor> \<le> INT_MAX"
  shows "formatTime h = Some (HH_MM \<lfloor>p\<rfloor>)"
proof -
  define m where "m = \<lfloor>p\<rfloor>"
  have "0 \<le> h * 60" using assms(1) by simp
  then have "0 \<le> p" using assms(2) by (rule round_double_nonneg)
  then have m0: "0 \<le> m" by (simp add: m_def)
  have cast: "static_cast_int (of_int m) = Some m"
    using m0 assms(3) by (simp add: static_cast_int_def INT_MIN_def m_def)
  have len: "length (HH_MM m) = 5"
    by (simp add: HH_MM_def length_two_digits)
  have "formatTime h = Some (take 5 (HH_MM m))"
    unfolding formatTime_def assms(2) option.case m_def [symmetric] cast
    by (simp only: option.case Let_def fields_nonneg [OF m0] printf_fields HH_MM_def)
  then show ?thesis using len by (simp add: m_def)
qed

text \<open>
  The minute count is the floor of the rounded product, not of the exact one: at the
  double \<open>1.0 / 60\<close>, which is below one sixtieth, the product rounds to 1 and the
  result is \<open>00:01\<close>; at a double whose exact minute count is \<open>INT_MAX\<close> the product
  rounds to \<open>2 ^ 31\<close> and the conversion to \<open>int\<close> is undefined.
\<close>

lemma formatTime_floors_rounded_product:
  "formatTime (4803839602528529 / 288230376151711744) = Some ''00:01''
   \<and> \<lfloor>(4803839602528529 / 288230376151711744 :: real) * 60\<rfloor> = 0"
proof -
  have "formatTime (4803839602528529 / 288230376151711744) = Some (HH_MM \<lfloor>1 :: real\<rfloor>)"
    using _ round_double_sixtieth_times_60
    by (rule formatTime_in_range) (simp_all add: INT_MAX_def)
  then show ?thesis by (simp add: HH_MM_def two_digits_def digit_char_def)
qed

lemma formatTime_range_boundary:
  "formatTime (4803839602528529 / 134217728) = None
   \<and> \<lfloor>(4803839602528529 / 134217728 :: real) * 60\<rfloor> = INT_MAX"
  using round_double_boundary_times_60
  by (simp add: formatTime_def static_cast_int_def INT_MIN_def INT_MAX_def)

text \<open>
  C7 (as amended). For every non-negative input, with \<open>p\<close> the double product
  \<open>hours * 60.0\<close> (the exact product rounded to binary64): when \<open>floor(p)\<close> fits in
  an \<open>int\<close>, formatTime renders \<open>HH:MM\<close> for \<open>totalMinutes = floor(p)\<close>, with hour
  field \<open>(totalMinutes/60) mod 24\<close> and minute field \<open>totalMinutes mod 60\<close>, each of
  two digits; and \<open>formatTime(25.5)\<close> is \<open>01:30\<close>.
\<close>

theorem formatTime_HH_MM:
  "(0 \<le> h \<and> round_double (h * 60) = Some p \<and> \<lfloor>p\<rfloor> \<le> INT_MAX \<longrightarrow>
      formatTime h = Some (HH_MM \<lfloor>p\<rfloor>))
   \<and> formatTime (51 / 2) = Some ''01:30''"
proof -
  have "round_double (51 / 2 * 60) = Some 1530" using round_double_1530 by simp
  then have "formatTime (51 / 2) = Some (HH_MM \<lfloor>1530 :: real\<rfloor>)"
    by (rule formatTime_in_range [rotated]) (simp_all add: INT_MAX_def)
  moreover have "HH_MM 1530 = ''01:30''"
    by (simp add: HH_MM_def two_digits_def digit_char_def)
  ultimately show ?thesis using formatTime_in_range [of h p] by simp
qed

theorem formatTime_HH_MM_witness:
  "(0::real) \<le> 6305039478318694 / 18014398509481984
   \<and> round_double (6305039478318694 / 18014398509481984 * 60) = Some 21
   \<and> \<lfloor>21 :: real\<rfloor> \<le> INT_MAX
   \<and> formatTime (6305039478318694 / 18014398509481984) = Some ''00:21''"
  using formatTime_HH_MM [of "6305039478318694 / 18014398509481984" 21]
    round_double_035_times_60
  by (simp add: INT_MAX_def HH_MM_def two_digits_def digit_char_def)

text \<open>
  C7 as stated fails for large inputs: at 40000000 hours the minute count 2400000000 is
  above \<open>INT_MAX\<close>, the conversion to \<open>int\<close> is undefined, and no \<open>HH:MM\<close>
  rendering of the minute count results.
\<close>

theorem formatTime_large_input:
  "formatTime 40000000 = None
   \<and> formatTime 40000000 \<noteq> Some (HH_MM \<lfloor>(40000000 :: real) * 60\<rfloor>)"
proof -
  have "round_double (40000000 * 60) = Some 2400000000"
    using round_double_2400000000 by simp
  then show ?thesis
    by (simp add: formatTime_def static_cast_int_def INT_MIN_def INT_MAX_def)
qed

section \<open>The event loop: counters, device ids, termination\<close>

lemma load_loop_counts:
  "load_loop t ds c = (ds', c') \<Longrightarrow>
   servedRequestsCount c' + int (length (buffer c')) = servedRequestsCount c + int (length (buffer c))
   \<and> servedRequestsCount c \<le> servedRequestsCount c'
   \<and> pending_arrivals c' = pending_arrivals c
   \<and> pending_completions c' + 2 * length (buffer c') \<le> pending_completions c + 2 * length (buffer c)
   \<and> generatedRequestsCount c' = generatedRequestsCount c
   \<and> rejectedRequests c' = rejectedRequests c
   \<and> maxRequests c' = maxRequests c
   \<and> globalRequestId c' = globalRequestId c
   \<and> sources c' = sources c
   \<and> lastEventTime c' = lastEventTime c"
proof (induction ds arbitrary: c ds' c')
  case Nil
  then show ?case by simp
next
  case (Cons d ds)
  show ?case
  proof (cases "d_busy d")
    case True
    then obtain ds1 where "load_loop t ds c = (ds1, c')"
      using Cons.prems by (auto split: prod.splits)
    then show ?thesis using Cons.IH by blast
  next
    case False
    show ?thesis
    proof (cases "buffer c")
      case Nil
      then show ?thesis using False Cons.prems by (simp add: popRequest_def)
    next
      case (Cons r rs)
      let ?c3 = "pushEvent \<lparr>e_type = REQUEST_SERVED,
                    e_time = t + d_serviceTimeHours (fst (loadRequest r t d)),
                    e_request = snd (loadRequest r t d),
                    e_deviceId = d_id (fst (loadRequest r t d))\<rparr>
                  (c\<lparr>buffer := rs,
                     totalWaitTime := totalWaitTime c + (t - r_bufferEnterTime (snd (loadRequest r t d))),
                     servedRequestsCount := servedRequestsCount c + 1\<rparr>)"
      obtain ds1 where rec: "load_loop t ds ?c3 = (ds1, c')"
        using Cons.prems False Cons
        by (auto simp: popRequest_def Let_def split: prod.splits)
      from Cons.IH [OF rec] show ?thesis
        using Cons by (simp add: pushEvent_def pending_arrivals_def pending_completions_def)
    qed
  qed
qed

lemma addRequest_counts:
  assumes "addRequest req c = (added, c')"
  shows "rejectedRequests c' + int (length (buffer c')) =
           rejectedRequests c + int (length (buffer c)) + 1
         \<and> rejectedRequests c \<le> rejectedRequests c'
         \<and> length (buffer c') \<le> length (buffer c) + 1
         \<and> events c' = events c
         \<and> servedRequestsCount c' = servedRequestsCount c
         \<and> generatedRequestsCount c' = generatedRequestsCount c
         \<and> maxRequests c' = maxRequests c
         \<and> globalRequestId c' = globalRequestId c
         \<and> sources c' = sources c
         \<and> devices c' = devices c
         \<and> lastEventTime c' = lastEventTime c"
proof (cases rule: addRequest_cases [of c req])
  case insert
  then show ?thesis using assms by (auto simp: length_insert_at)
next
  case (evict i)
  then show ?thesis using assms by (auto simp: evict_eq length_erase_at)
next
  case reject
  then show ?thesis using assms by (auto simp: reject_eq)
qed

lemma loadRequestsToFreeDevices_counts:
  assumes "c' = loadRequestsToFreeDevices t c"
  shows "servedRequestsCount c' + int (length (buffer c')) =
           servedRequestsCount c + int (length (buffer c))
         \<and> servedRequestsCount c \<le> servedRequestsCount c'
         \<and> pending_arrivals c' = pending_arrivals c
         \<and> pending_completions c' + 2 * length (buffer c') \<le>
             pending_completions c + 2 * length (buffer c)
         \<and> generatedRequestsCount c' = generatedRequestsCount c
         \<and> rejectedRequests c' = rejectedRequests c
         \<and> maxRequests c' = maxRequests c
         \<and> globalRequestId c' = globalRequestId c
         \<and> sources c' = sources c
         \<and> lastEventTime c' = lastEventTime c"
proof -
  obtain ds c1 where l: "load_loop t (devices c) c = (ds, c1)" by fastforce
  then have "c' = c1\<lparr>devices := ds\<rparr>"
    using assms by (simp add: loadRequestsToFreeDevices_def)
  then show ?thesis using load_loop_counts [OF l]
    by (simp add: pending_arrivals_def pending_completions_def)
qed

lemma scheduleNextRequest_counts:
  assumes "c' = scheduleNextRequest i t c"
  shows "generatedRequestsCount c' - int (pending_arrivals c') =
           generatedRequestsCount c - int (pending_arrivals c)
         \<and> credit c' = credit c
         \<and> (generatedRequestsCount c \<le> max 0 (maxRequests c) \<longrightarrow>
              generatedRequestsCount c' \<le> max 0 (maxRequests c))
         \<and> globalRequestId c' - generatedRequestsCount c' =
             globalRequestId c - generatedRequestsCount c
         \<and> pending_completions c' = pending_completions c
         \<and> buffer c' = buffer c
         \<and> servedRequestsCount c' = servedRequestsCount c
         \<and> rejectedRequests c' = rejectedRequests c
         \<and> maxRequests c' = maxRequests c
         \<and> devices c' = devices c
         \<and> lastEventTime c' = lastEventTime c"
  using assms
  by (auto simp: scheduleNextRequest_def Let_def pushEvent_def pending_arrivals_def
      pending_completions_def credit_def split: prod.splits)

lemma length_filter_remove1:
  "e \<in> set es \<Longrightarrow>
   length (filter P (remove1 e es)) + (if P e then 1 else 0) = length (filter P es)"
  by (induction es) auto

lemma handleRequestGenerated_counts:
  assumes "c' = handleRequestGenerated req t c"
  shows "balance c' = balance c - 1
         \<and> servedRequestsCount c \<le> servedRequestsCount c'
         \<and> rejectedRequests c \<le> rejectedRequests c'
         \<and> (generatedRequestsCount c \<le> max 0 (maxRequests c) \<longrightarrow>
              generatedRequestsCount c' \<le> max 0 (maxRequests c))
         \<and> globalRequestId c' - generatedRequestsCount c' =
             globalRequestId c - generatedRequestsCount c
         \<and> maxRequests c' = maxRequests c
         \<and> credit c' = credit c
         \<and> weight c' \<le> weight c + 2"
proof -
  obtain added c1 where a: "addRequest req c = (added, c1)" by fastforce
  define c2 where "c2 = (if \<not> added then c1 else loadRequestsToFreeDevices t c1)"
  define known where
    "known = (r_sourceIndex req \<ge> 0 \<and> r_sourceIndex req < int (length (sources c2)))"
  have c': "c' = (if known then scheduleNextRequest (nat (r_sourceIndex req)) t c2 else c2)"
    using assms a by (simp add: handleRequestGenerated_def c2_def known_def Let_def)
  note A = addRequest_counts [OF a]
  have B: "servedRequestsCount c2 + int (length (buffer c2)) =
             servedRequestsCount c1 + int (length (buffer c1))
           \<and> servedRequestsCount c1 \<le> servedRequestsCount c2
           \<and> pending_arrivals c2 = pending_arrivals c1
           \<and> pending_completions c2 + 2 * length (buffer c2) \<le>
               pending_completions c1 + 2 * length (buffer c1)
           \<and> generatedRequestsCount c2 = generatedRequestsCount c1
           \<and> rejectedRequests c2 = rejectedRequests c1
           \<and> maxRequests c2 = maxRequests c1
           \<and> globalRequestId c2 = globalRequestId c1"
    using loadRequestsToFreeDevices_counts [of "loadRequestsToFreeDevices t c1" t c1]
    by (cases added) (simp_all add: c2_def)
  have C: "generatedRequestsCount c' - int (pending_arrivals c') =
             generatedRequestsCount c2 - int (pending_arrivals c2)
           \<and> credit c' = credit c2
           \<and> (generatedRequestsCount c2 \<le> max 0 (maxRequests c2) \<longrightarrow>
                generatedRequestsCount c' \<le> max 0 (maxRequests c2))
           \<and> globalRequestId c' - generatedRequestsCount c' =
               globalRequestId c2 - generatedRequestsCount c2
           \<and> pending_completions c' = pending_completions c2
           \<and> buffer c' = buffer c2
           \<and> servedRequestsCount c' = servedRequestsCount c2
           \<and> rejectedRequests c' = rejectedRequests c2
           \<and> maxRequests c' = maxRequests c2"
  proof (cases known)
    case True
    then have "c' = scheduleNextRequest (nat (r_sourceIndex req)) t c2" using c' by simp
    from scheduleNextRequest_counts [OF this] show ?thesis by simp
  next
    case False
    then have "c' = c2" using c' by simp
    then show ?thesis by simp
  qed
  have p1: "pending_arrivals c1 = pending_arrivals c" "pending_completions c1 = pending_completions c"
    using A by (simp_all add: pending_arrivals_def pending_completions_def)
  have "balance c' = balance c - 1"
    using A B C p1 by (simp add: balance_def)
  moreover have "credit c2 = credit c"
    using A B p1 by (simp add: credit_def)
  then have "credit c' = credit c" using C by simp
  moreover have "weight c' \<le> weight c + 2"
    using A B C p1 by (simp add: weight_def)
  ultimately show ?thesis using A B C by simp
qed

lemma handleRequestFinished_counts:
  assumes "handleRequestFinished deviceId t req c = Some c'"
  shows "balance c' = balance c
         \<and> servedRequestsCount c \<le> servedRequestsCount c'
         \<and> rejectedRequests c' = rejectedRequests c
         \<and> generatedRequestsCount c' = generatedRequestsCount c
         \<and> globalRequestId c' = globalRequestId c
         \<and> maxRequests c' = maxRequests c
         \<and> credit c' = credit c
         \<and> weight c' \<le> weight c"
proof -
  define c1 where "c1 = c\<lparr>devices := (devices c)[nat (deviceId - 1) :=
                          freeDevice t (devices c ! nat (deviceId - 1))]\<rparr>"
  have c': "c' = loadRequestsToFreeDevices t c1"
    using assms by (simp add: handleRequestFinished_def c1_def Let_def split: if_splits)
  note B = loadRequestsToFreeDevices_counts [OF c']
  have p1: "pending_arrivals c1 = pending_arrivals c" "pending_completions c1 = pending_completions c"
    "buffer c1 = buffer c" "servedRequestsCount c1 = servedRequestsCount c"
    "rejectedRequests c1 = rejectedRequests c" "generatedRequestsCount c1 = generatedRequestsCount c"
    "maxRequests c1 = maxRequests c" "globalRequestId c1 = globalRequestId c"
    by (simp_all add: c1_def pending_arrivals_def pending_completions_def)
  have "balance c' = balance c" using B p1 by (simp add: balance_def)
  moreover have "credit c' = credit c" using B p1 by (simp add: credit_def)
  moreover have "weight c' \<le> weight c" using B p1 by (simp add: weight_def)
  ultimately show ?thesis using B p1 by simp
qed

lemma counters_ok_balance:
  "counters_ok c \<longleftrightarrow>
     balance c = 0 \<and> 0 \<le> servedRequestsCount c \<and> 0 \<le> rejectedRequests c
     \<and> generatedRequestsCount c \<le> max 0 (maxRequests c)
     \<and> globalRequestId c - generatedRequestsCount c = 0"
  by (auto simp: counters_ok_def conservation_def balance_def)

lemma work_body_counts:
  assumes "e \<in> set (events c)" and "work_body e c = Some c'"
  shows "balance c' = balance c
         \<and> servedRequestsCount c \<le> servedRequestsCount c'
         \<and> rejectedRequests c \<le> rejectedRequests c'
         \<and> (generatedRequestsCount c \<le> max 0 (maxRequests c) \<longrightarrow>
              generatedRequestsCount c' \<le> max 0 (maxRequests c))
         \<and> globalRequestId c' - generatedRequestsCount c' =
             globalRequestId c - generatedRequestsCount c
         \<and> maxRequests c' = maxRequests c
         \<and> work_measure c' < work_measure c"
proof -
  define c2 where
    "c2 = updateLastEventTime (e_time e) (c\<lparr>events := remove1 e (events c)\<rparr>)"
  have ev: "events c2 = remove1 e (events c)"
    and same: "buffer c2 = buffer c" "servedRequestsCount c2 = servedRequestsCount c"
      "rejectedRequests c2 = rejectedRequests c" "generatedRequestsCount c2 = generatedRequestsCount c"
      "maxRequests c2 = maxRequests c" "globalRequestId c2 = globalRequestId c"
    by (simp_all add: c2_def updateLastEventTime_def)
  have pa: "pending_arrivals c2 + (if e_type e = REQUEST_GENERATED then 1 else 0) = pending_arrivals c"
    unfolding pending_arrivals_def ev using length_filter_remove1 [OF assms(1)] by blast
  have pc: "pending_completions c2 + (if e_type e = REQUEST_SERVED then 1 else 0) = pending_completions c"
    unfolding pending_completions_def ev using length_filter_remove1 [OF assms(1)] by blast
  show ?thesis
  proof (cases "e_type e")
    case REQUEST_GENERATED
    then have c': "c' = handleRequestGenerated (e_request e) (e_time e) c2"
      using assms(2) by (simp add: work_body_def c2_def Let_def)
    note H = handleRequestGenerated_counts [OF c']
    have "balance c2 = balance c + 1" "credit c2 + 3 = credit c" "weight c2 = weight c"
      using pa pc same REQUEST_GENERATED by (simp_all add: balance_def credit_def weight_def)
    then show ?thesis using H same by (simp add: work_measure_def)
  next
    case REQUEST_SERVED
    then have c': "handleRequestFinished (e_deviceId e) (e_time e) (e_request e) c2 = Some c'"
      using assms(2) by (simp add: work_body_def c2_def Let_def)
    note H = handleRequestFinished_counts [OF c']
    have "balance c2 = balance c" "credit c2 = credit c" "weight c2 + 1 = weight c"
      using pa pc same REQUEST_SERVED by (simp_all add: balance_def credit_def weight_def)
    then show ?thesis using H same by (simp add: work_measure_def)
  qed
qed

lemma work_iterE:
  assumes "work_iter c c'"
  obtains e where "servedRequestsCount c < maxRequests c" "e \<in> set (events c)"
    "\<forall>e'\<in>set (events c). e_time e \<le> e_time e'" "work_body e c = Some c'"
  using assms unfolding work_iter_def is_top_def by blast

lemma work_iter_counters_ok:
  assumes "counters_ok c" and "work_iter c c'"
  shows "counters_ok c'"
proof -
  from assms(2) obtain e where e: "e \<in> set (events c)" "work_body e c = Some c'"
    by (rule work_iterE)
  note W = work_body_counts [OF e]
  have b: "balance c = 0" "0 \<le> servedRequestsCount c" "0 \<le> rejectedRequests c"
    "generatedRequestsCount c \<le> max 0 (maxRequests c)"
    "globalRequestId c - generatedRequestsCount c = 0"
    using assms(1) by (simp_all add: counters_ok_balance)
  have "balance c' = 0" using W b(1) by simp
  moreover have "0 \<le> servedRequestsCount c'" using W b(2) by linarith
  moreover have "0 \<le> rejectedRequests c'" using W b(3) by linarith
  moreover have "generatedRequestsCount c' \<le> max 0 (maxRequests c')" using W b(4) by simp
  moreover have "globalRequestId c' - generatedRequestsCount c' = 0" using W b(5) by simp
  ultimately show ?thesis by (simp only: counters_ok_balance simp_thms)
qed

lemma work_iter_measure:
  assumes "work_iter c c'"
  shows "work_measure c' < work_measure c"
proof -
  from assms obtain e where e: "e \<in> set (events c)" "work_body e c = Some c'"
    by (rule work_iterE)
  from work_body_counts [OF e] show ?thesis by simp
qed

lemma work_iter_maxRequests:
  assumes "work_iter c c'"
  shows "maxRequests c' = maxRequests c"
proof -
  from assms obtain e where e: "e \<in> set (events c)" "work_body e c = Some c'"
    by (rule work_iterE)
  from work_body_counts [OF e] show ?thesis by simp
qed

lemma initRequests_loop_counts:
  "initRequests_loop ss c = (ss', c') \<Longrightarrow>
   balance c' = balance c
   \<and> (generatedRequestsCount c \<le> max 0 (maxRequests c) \<longrightarrow>
        generatedRequestsCount c' \<le> max 0 (maxRequests c))
   \<and> globalRequestId c' - generatedRequestsCount c' = globalRequestId c - generatedRequestsCount c
   \<and> maxRequests c' = maxRequests c
   \<and> servedRequestsCount c' = servedRequestsCount c
   \<and> rejectedRequests c' = rejectedRequests c"
proof (induction ss arbitrary: c ss' c')
  case Nil
  then show ?case by simp
next
  case (Cons s ss)
  show ?case
  proof (cases "generatedRequestsCount c \<ge> maxRequests c")
    case True
    then show ?thesis using Cons.prems by simp
  next
    case False
    let ?s' = "snd (generateInterArrivalTime 0 s)"
    let ?c3 = "pushEvent \<lparr>e_type = REQUEST_GENERATED, e_time = 0 + fst (generateInterArrivalTime 0 s),
                   e_request = createRequest ?s' (globalRequestId c + 1) (0 + fst (generateInterArrivalTime 0 s)),
                   e_deviceId = - 1\<rparr>
                 (c\<lparr>globalRequestId := globalRequestId c + 1,
                    generatedRequestsCount := generatedRequestsCount c + 1\<rparr>)"
    obtain ss1 where rec: "initRequests_loop ss ?c3 = (ss1, c')"
      using Cons.prems False by (auto simp: Let_def split: prod.splits)
    have "balance ?c3 = balance c" "generatedRequestsCount ?c3 \<le> max 0 (maxRequests c)"
      using False by (simp_all add: balance_def pushEvent_def pending_arrivals_def)
    then show ?thesis using Cons.IH [OF rec] by (simp add: pushEvent_def)
  qed
qed

lemma run_start_counters_ok:
  "counters_ok (run_start nc np nf nd mx ss ds)"
proof -
  let ?c = "new_Controller nc np nf nd mx ss ds"
  obtain ss' c' where l: "initRequests_loop (sources ?c) ?c = (ss', c')" by fastforce
  have "balance ?c = 0" "generatedRequestsCount ?c \<le> max 0 (maxRequests ?c)"
    "globalRequestId ?c - generatedRequestsCount ?c = 0" "servedRequestsCount ?c = 0"
    "rejectedRequests ?c = 0"
    by (simp_all add: new_Controller_def Let_def balance_def pending_arrivals_def)
  then have "counters_ok c'"
    using initRequests_loop_counts [OF l] by (simp add: counters_ok_balance)
  then have "counters_ok (c'\<lparr>sources := ss'\<rparr>)"
    by (simp add: counters_ok_def conservation_def pending_arrivals_def)
  then show ?thesis by (simp add: run_start_def initRequests_def l)
qed

lemma reachable_counters_ok:
  "work_iter\<^sup>*\<^sup>* (run_start nc np nf nd mx ss ds) c \<Longrightarrow> counters_ok c"
  by (induction rule: rtranclp_induct) (auto intro: run_start_counters_ok work_iter_counters_ok)

lemma loadRequest_eq:
  "loadRequest r t d =
     (d\<lparr>d_busy := True, d_currentRequest := Some (r\<lparr>r_startServiceTime := t\<rparr>),
        d_startBusyTime := t, d_serviceTimeHours := d_rng d 0,
        d_finishTime := t + d_rng d 0, d_rng := (\<lambda>n. d_rng d (Suc n))\<rparr>,
      r\<lparr>r_startServiceTime := t\<rparr>)"
  by (simp add: loadRequest_def draw_def Let_def)

lemma load_loop_Cons_cases [consumes 1, case_names busy empty dispatch]:
  assumes "load_loop t (d # ds) c = (ds', c')"
  obtains
    (busy) ds1 where "d_busy d" "load_loop t ds c = (ds1, c')" "ds' = d # ds1"
  | (empty) "\<not> d_busy d" "buffer c = []" "ds' = d # ds" "c' = c"
  | (dispatch) r rs ds1 where "\<not> d_busy d" "buffer c = r # rs"
      "load_loop t ds
         (c\<lparr>buffer := rs,
            totalWaitTime := totalWaitTime c + (t - r_bufferEnterTime r),
            servedRequestsCount := servedRequestsCount c + 1,
            events := events c @ [\<lparr>e_type = REQUEST_SERVED, e_time = t + d_rng d 0,
                                  e_request = r\<lparr>r_startServiceTime := t\<rparr>,
                                  e_deviceId = d_id d\<rparr>]\<rparr>) = (ds1, c')"
      "ds' = fst (loadRequest r t d) # ds1"
proof (cases "d_busy d")
  case True
  obtain ds1 c1 where l: "load_loop t ds c = (ds1, c1)" by fastforce
  then have "ds' = d # ds1" "c' = c1" using assms True by simp_all
  then show ?thesis using busy [of ds1] True l by simp
next
  case False
  show ?thesis
  proof (cases "buffer c")
    case Nil
    then have "ds' = d # ds" "c' = c" using assms False by (simp_all add: popRequest_def)
    then show ?thesis using empty False Nil by simp
  next
    case (Cons r rs)
    let ?c3 = "c\<lparr>buffer := rs,
            totalWaitTime := totalWaitTime c + (t - r_bufferEnterTime r),
            servedRequestsCount := servedRequestsCount c + 1,
            events := events c @ [\<lparr>e_type = REQUEST_SERVED, e_time = t + d_rng d 0,
                                  e_request = r\<lparr>r_startServiceTime := t\<rparr>,
                                  e_deviceId = d_id d\<rparr>]\<rparr>"
    obtain ds1 c1 where l: "load_loop t ds ?c3 = (ds1, c1)" by fastforce
    have "load_loop t (d # ds) c = (fst (loadRequest r t d) # ds1, c1)"
      using False Cons l by (simp add: popRequest_def loadRequest_eq pushEvent_def Let_def)
    then have "ds' = fst (loadRequest r t d) # ds1" "c' = c1" using assms by simp_all
    then show ?thesis using dispatch [of r rs ds1] False Cons l by simp
  qed
qed

lemma load_loop_effect:
  "load_loop t ds c = (ds', c') \<Longrightarrow>
   map d_id ds' = map d_id ds
   \<and> set (buffer c') \<subseteq> set (buffer c)
   \<and> (\<forall>e\<in>set (events c'). e \<in> set (events c)
         \<or> (e_type e = REQUEST_SERVED \<and> e_deviceId e \<in> d_id ` set ds
            \<and> (\<exists>r\<in>set (buffer c). e_request e = r\<lparr>r_startServiceTime := t\<rparr>)
            \<and> (\<exists>d\<in>set ds. e_time e = t + d_rng d 0)))
   \<and> (\<forall>d'\<in>set ds'. d' \<in> set ds
         \<or> ((\<exists>r\<in>set (buffer c). d_currentRequest d' = Some (r\<lparr>r_startServiceTime := t\<rparr>))
            \<and> (\<exists>d\<in>set ds. \<exists>k. d_rng d' = (\<lambda>n. d_rng d (n + k)))))"
proof (induction ds arbitrary: c ds' c')
  case Nil
  then show ?case by simp
next
  case (Cons d ds)
  from Cons.prems show ?case
  proof (cases rule: load_loop_Cons_cases)
    case (busy ds1)
    from Cons.IH [OF busy(2)] show ?thesis using busy(3) by auto
  next
    case empty
    then show ?thesis by simp
  next
    case (dispatch r rs ds1)
    note IH = Cons.IH [OF dispatch(3)]
    have 1: "map d_id ds' = map d_id (d # ds)"
      using IH dispatch(4) by (simp add: loadRequest_eq)
    have 2: "set (buffer c') \<subseteq> set (buffer c)"
      using IH dispatch(2) by auto
    have 3: "\<forall>e\<in>set (events c'). e \<in> set (events c)
         \<or> (e_type e = REQUEST_SERVED \<and> e_deviceId e \<in> d_id ` set (d # ds)
            \<and> (\<exists>r\<in>set (buffer c). e_request e = r\<lparr>r_startServiceTime := t\<rparr>)
            \<and> (\<exists>d\<in>set (d # ds). e_time e = t + d_rng d 0))"
    proof
      fix e assume "e \<in> set (events c')"
      with IH consider "e \<in> set (events c)"
        | "e = \<lparr>e_type = REQUEST_SERVED, e_time = t + d_rng d 0,
                 e_request = r\<lparr>r_startServiceTime := t\<rparr>, e_deviceId = d_id d\<rparr>"
        | "e_type e = REQUEST_SERVED \<and> e_deviceId e \<in> d_id ` set ds
            \<and> (\<exists>r\<in>set rs. e_request e = r\<lparr>r_startServiceTime := t\<rparr>)
            \<and> (\<exists>d\<in>set ds. e_time e = t + d_rng d 0)"
        by auto
      then show "e \<in> set (events c)
         \<or> (e_type e = REQUEST_SERVED \<and> e_deviceId e \<in> d_id ` set (d # ds)
            \<and> (\<exists>r\<in>set (buffer c). e_request e = r\<lparr>r_startServiceTime := t\<rparr>)
            \<and> (\<exists>d\<in>set (d # ds). e_time e = t + d_rng d 0))"
      proof cases
        case 1
        then show ?thesis by simp
      next
        case 2
        then show ?thesis using dispatch(2) by simp
      next
        case 3
        then show ?thesis using dispatch(2) by auto
      qed
    qed
    have 4: "\<forall>d'\<in>set ds'. d' \<in> set (d # ds)
         \<or> ((\<exists>r\<in>set (buffer c). d_currentRequest d' = Some (r\<lparr>r_startServiceTime := t\<rparr>))
            \<and> (\<exists>d\<in>set (d # ds). \<exists>k. d_rng d' = (\<lambda>n. d_rng d (n + k))))"
    proof
      fix d' assume "d' \<in> set ds'"
      then consider "d' = fst (loadRequest r t d)" | "d' \<in> set ds1"
        using dispatch(4) by auto
      then show "d' \<in> set (d # ds)
         \<or> ((\<exists>r\<in>set (buffer c). d_currentRequest d' = Some (r\<lparr>r_startServiceTime := t\<rparr>))
            \<and> (\<exists>d\<in>set (d # ds). \<exists>k. d_rng d' = (\<lambda>n. d_rng d (n + k))))"
      proof cases
        case 1
        have "d_rng d' = (\<lambda>n. d_rng d (n + 1))" using 1 by (simp add: loadRequest_eq)
        then have "\<exists>k. d_rng d' = (\<lambda>n. d_rng d (n + k))" by blast
        then show ?thesis using 1 dispatch(2) by (simp add: loadRequest_eq)
      next
        case 2
        then show ?thesis using IH dispatch(2) by auto
      qed
    qed
    show ?thesis using 1 2 3 4 by blast
  qed
qed

lemma loadRequestsToFreeDevices_effect:
  assumes "c' = loadRequestsToFreeDevices t c"
  shows "map d_id (devices c') = map d_id (devices c)"
    and "set (buffer c') \<subseteq> set (buffer c)"
    and "\<forall>e\<in>set (events c'). e \<in> set (events c)
         \<or> (e_type e = REQUEST_SERVED \<and> e_deviceId e \<in> d_id ` set (devices c)
            \<and> (\<exists>r\<in>set (buffer c). e_request e = r\<lparr>r_startServiceTime := t\<rparr>)
            \<and> (\<exists>d\<in>set (devices c). e_time e = t + d_rng d 0))"
    and "\<forall>d'\<in>set (devices c'). d' \<in> set (devices c)
         \<or> ((\<exists>r\<in>set (buffer c). d_currentRequest d' = Some (r\<lparr>r_startServiceTime := t\<rparr>))
            \<and> (\<exists>d\<in>set (devices c). \<exists>k. d_rng d' = (\<lambda>n. d_rng d (n + k))))"
    and "sources c' = sources c" and "lastEventTime c' = lastEventTime c"
proof -
  obtain ds c1 where l: "load_loop t (devices c) c = (ds, c1)" by fastforce
  then have c': "c' = c1\<lparr>devices := ds\<rparr>"
    using assms by (simp add: loadRequestsToFreeDevices_def)
  note E = load_loop_effect [OF l] and F = load_loop_counts [OF l]
  show "map d_id (devices c') = map d_id (devices c)" using E c' by simp
  show "set (buffer c') \<subseteq> set (buffer c)" using E c' by simp
  show "\<forall>e\<in>set (events c'). e \<in> set (events c)
         \<or> (e_type e = REQUEST_SERVED \<and> e_deviceId e \<in> d_id ` set (devices c)
            \<and> (\<exists>r\<in>set (buffer c). e_request e = r\<lparr>r_startServiceTime := t\<rparr>)
            \<and> (\<exists>d\<in>set (devices c). e_time e = t + d_rng d 0))"
    using E c' by simp
  show "\<forall>d'\<in>set (devices c'). d' \<in> set (devices c)
         \<or> ((\<exists>r\<in>set (buffer c). d_currentRequest d' = Some (r\<lparr>r_startServiceTime := t\<rparr>))
            \<and> (\<exists>d\<in>set (devices c). \<exists>k. d_rng d' = (\<lambda>n. d_rng d (n + k))))"
    using E c' by simp
  show "sources c' = sources c" "lastEventTime c' = lastEventTime c" using F c' by simp_all
qed

lemma addRequest_buffer:
  assumes "addRequest req c = (added, c')"
  shows "set (buffer c') \<subseteq> insert (stamp_enter req) (set (buffer c))"
proof (cases rule: addRequest_cases [of c req])
  case insert
  then show ?thesis using assms
    by (auto simp: insert_at_def dest: in_set_takeD in_set_dropD)
next
  case (evict i)
  then show ?thesis using assms
    by (auto simp: evict_eq erase_at_def dest: in_set_takeD in_set_dropD)
next
  case reject
  then show ?thesis using assms by (auto simp: reject_eq)
qed

lemma scheduleNextRequest_effect:
  assumes "c' = scheduleNextRequest i t c"
  shows "\<forall>e\<in>set (events c'). e \<in> set (events c)
          \<or> (e_type e = REQUEST_GENERATED \<and> e_time e = t + s_rng (sources c ! i) 0
             \<and> r_arrivalTime (e_request e) = e_time e
             \<and> r_bufferEnterTime (e_request e) = r_arrivalTime (e_request e))"
    and "sources c' = sources c
         \<or> sources c' = (sources c)[i := (sources c ! i)\<lparr>s_rng := (\<lambda>n. s_rng (sources c ! i) (Suc n))\<rparr>]"
    and "buffer c' = buffer c" and "devices c' = devices c"
    and "lastEventTime c' = lastEventTime c"
  using assms
  by (auto simp: scheduleNextRequest_def generateInterArrivalTime_def draw_def createRequest_def
      new_Request_def pushEvent_def Let_def)

lemma map_d_id_update:
  "d_id d' = d_id (ds ! i) \<Longrightarrow> map d_id (ds[i := d']) = map d_id ds"
  by (induction ds arbitrary: i) (auto split: nat.splits)

lemma device_ids_range:
  assumes "map d_id ds = map int [1 ..< Suc (length ds)]" and "x \<in> d_id ` set ds"
  shows "1 \<le> x \<and> x \<le> int (length ds)"
proof -
  have "x \<in> set (map d_id ds)" using assms(2) by simp
  then have "x \<in> set (map int [1 ..< Suc (length ds)])" using assms(1) by simp
  then show ?thesis by auto
qed

lemma device_ids_ok_load:
  assumes "device_ids_ok c"
  shows "device_ids_ok (loadRequestsToFreeDevices t c)"
proof -
  define c' where "c' = loadRequestsToFreeDevices t c"
  note E = loadRequestsToFreeDevices_effect [OF c'_def]
  have len: "length (devices c') = length (devices c)"
    using E(1) by (metis length_map)
  have ids: "map d_id (devices c) = map int [1 ..< Suc (length (devices c))]"
    using assms by (simp add: device_ids_ok_def)
  have "1 \<le> e_deviceId e \<and> e_deviceId e \<le> int (length (devices c))"
    if "e \<in> set (events c')" "e_type e = REQUEST_SERVED" for e
  proof -
    from E(3) that(1) consider "e \<in> set (events c)" | "e_deviceId e \<in> d_id ` set (devices c)"
      by blast
    then show ?thesis
    proof cases
      case 1
      then show ?thesis using assms that(2) by (simp add: device_ids_ok_def)
    next
      case 2
      then show ?thesis using device_ids_range [OF ids] by blast
    qed
  qed
  then show ?thesis unfolding c'_def [symmetric] device_ids_ok_def using E(1) ids len by simp
qed

lemma device_ids_ok_frame:
  assumes "device_ids_ok c" and "devices c' = devices c"
    and "\<forall>e\<in>set (events c'). e \<in> set (events c) \<or> e_type e = REQUEST_GENERATED"
  shows "device_ids_ok c'"
  using assms unfolding device_ids_ok_def by auto

lemma work_body_device_ids_ok:
  assumes "device_ids_ok c" and "e \<in> set (events c)" and "work_body e c = Some c'"
  shows "device_ids_ok c'"
proof -
  define c2 where
    "c2 = updateLastEventTime (e_time e) (c\<lparr>events := remove1 e (events c)\<rparr>)"
  have d2: "devices c2 = devices c" and e2: "events c2 = remove1 e (events c)"
    by (simp_all add: c2_def updateLastEventTime_def)
  have "\<forall>x\<in>set (events c2). x \<in> set (events c) \<or> e_type x = REQUEST_GENERATED"
    unfolding e2 using set_remove1_subset [of e "events c"] by blast
  with assms(1) d2 have ok2: "device_ids_ok c2" by (rule device_ids_ok_frame)
  show ?thesis
  proof (cases "e_type e")
    case REQUEST_GENERATED
    then have c': "c' = handleRequestGenerated (e_request e) (e_time e) c2"
      using assms(3) by (simp add: work_body_def c2_def Let_def)
    obtain added c3 where a: "addRequest (e_request e) c2 = (added, c3)" by fastforce
    define c4 where "c4 = (if \<not> added then c3 else loadRequestsToFreeDevices (e_time e) c3)"
    define known where "known =
      (r_sourceIndex (e_request e) \<ge> 0 \<and> r_sourceIndex (e_request e) < int (length (sources c4)))"
    have c'': "c' = (if known then scheduleNextRequest (nat (r_sourceIndex (e_request e))) (e_time e) c4
                    else c4)"
      using c' a by (simp add: handleRequestGenerated_def c4_def known_def Let_def)
    have d3: "devices c3 = devices c2" and e3: "events c3 = events c2"
      using addRequest_counts [OF a] by simp_all
    have "device_ids_ok c3"
      by (rule device_ids_ok_frame [OF ok2 d3]) (simp add: e3)
    then have ok4: "device_ids_ok c4"
      by (cases added) (simp_all add: c4_def device_ids_ok_load)
    show ?thesis
    proof (cases known)
      case True
      then have s: "c' = scheduleNextRequest (nat (r_sourceIndex (e_request e))) (e_time e) c4"
        using c'' by simp
      have "\<forall>x\<in>set (events c'). x \<in> set (events c4) \<or> e_type x = REQUEST_GENERATED"
        using scheduleNextRequest_effect(1) [OF s] by blast
      with ok4 scheduleNextRequest_effect(4) [OF s] show ?thesis
        by (rule device_ids_ok_frame)
    next
      case False
      then show ?thesis using c'' ok4 by simp
    qed
  next
    case REQUEST_SERVED
    then have h: "handleRequestFinished (e_deviceId e) (e_time e) (e_request e) c2 = Some c'"
      using assms(3) by (simp add: work_body_def c2_def Let_def)
    define i where "i = nat (e_deviceId e - 1)"
    define c3 where "c3 = c2\<lparr>devices := (devices c2)[i := freeDevice (e_time e) (devices c2 ! i)]\<rparr>"
    have c': "c' = loadRequestsToFreeDevices (e_time e) c3"
      using h by (simp add: handleRequestFinished_def c3_def i_def Let_def split: if_splits)
    have "d_id (freeDevice (e_time e) (devices c2 ! i)) = d_id (devices c2 ! i)"
      by (simp add: freeDevice_def)
    then have m: "map d_id (devices c3) = map d_id (devices c2)"
      by (simp add: c3_def map_d_id_update)
    have l: "length (devices c3) = length (devices c2)" and ev: "events c3 = events c2"
      by (simp_all add: c3_def)
    have "device_ids_ok c3"
      using ok2 unfolding device_ids_ok_def m l ev by simp
    then show ?thesis using c' by (simp add: device_ids_ok_load)
  qed
qed

lemma demo_start_eq:
  "demo_start =
     \<lparr>events = [\<lparr>e_type = REQUEST_GENERATED, e_time = 1,
                  e_request = \<lparr>r_id = 1, r_priority = CORPORATE, r_arrivalTime = 1,
                               r_sourceIndex = 0, r_bufferEnterTime = 1,
                               r_startServiceTime = 0\<rparr>,
                  e_deviceId = - 1\<rparr>],
      sources = [\<lparr>s_priority = CORPORATE, s_sourceIndex = 0, s_rng = (\<lambda>_. 1)\<rparr>],
      devices = [\<lparr>d_id = 1, d_busy = False, d_finishTime = 0, d_busyTotalTime = 0,
                   d_startBusyTime = 0, d_currentRequest = None,
                   d_serviceTimeHours = 0, d_rng = (\<lambda>_. 1)\<rparr>],
      buffer = [], globalRequestId = 1, maxRequests = 1, generatedRequestsCount = 1,
      rejectedRequests = 0, rejectedByPriority = (\<lambda>_. 0), totalWaitTime = 0,
      servedRequestsCount = 0, lastEventTime = 0\<rparr>"
  by (simp add: demo_start_def run_start_def new_Controller_def make_sources_def new_Source_def
      new_Device_def initRequests_def generateInterArrivalTime_def draw_def createRequest_def
      new_Request_def pushEvent_def unit_seeds_def Let_def)

lemma demo_iter: "work_iter demo_start demo_final"
  unfolding demo_start_eq
  by (simp add: work_iter_def is_top_def work_body_def updateLastEventTime_def
      handleRequestGenerated_def addRequest_def BUFFER_SIZE_def insert_at_def stamp_enter_def
      loadRequestsToFreeDevices_def popRequest_def loadRequest_def draw_def pushEvent_def
      scheduleNextRequest_def demo_final_def demo_request_def Let_def)

lemma demo_returns: "work_returns demo_start demo_final"
  unfolding work_returns_def using demo_iter by (auto simp: demo_final_def)

lemma initRequests_loop_effect:
  "initRequests_loop ss c = (ss', c') \<Longrightarrow>
   devices c' = devices c \<and> buffer c' = buffer c \<and> lastEventTime c' = lastEventTime c
   \<and> (\<forall>e\<in>set (events c'). e \<in> set (events c)
         \<or> (e_type e = REQUEST_GENERATED \<and> (\<exists>s\<in>set ss. e_time e = 0 + s_rng s 0)
            \<and> r_arrivalTime (e_request e) = e_time e
            \<and> r_bufferEnterTime (e_request e) = r_arrivalTime (e_request e)))
   \<and> (\<forall>s'\<in>set ss'. s' \<in> set ss \<or> (\<exists>s\<in>set ss. s_rng s' = (\<lambda>n. s_rng s (Suc n))))"
proof (induction ss arbitrary: c ss' c')
  case Nil
  then show ?case by simp
next
  case (Cons s ss)
  show ?case
  proof (cases "generatedRequestsCount c \<ge> maxRequests c")
    case True
    then show ?thesis using Cons.prems by simp
  next
    case False
    let ?s' = "s\<lparr>s_rng := (\<lambda>n. s_rng s (Suc n))\<rparr>"
    let ?ev = "\<lparr>e_type = REQUEST_GENERATED, e_time = 0 + s_rng s 0,
                e_request = createRequest ?s' (globalRequestId c + 1) (0 + s_rng s 0),
                e_deviceId = - 1\<rparr>"
    let ?c3 = "c\<lparr>globalRequestId := globalRequestId c + 1,
                 generatedRequestsCount := generatedRequestsCount c + 1,
                 events := events c @ [?ev]\<rparr>"
    obtain ss1 c1 where rec: "initRequests_loop ss ?c3 = (ss1, c1)" by fastforce
    have "initRequests_loop (s # ss) c = (?s' # ss1, c1)"
      using False rec
      by (simp add: generateInterArrivalTime_def draw_def pushEvent_def Let_def)
    then have eq: "ss' = ?s' # ss1" "c' = c1" using Cons.prems by simp_all
    note IH = Cons.IH [OF rec]
    have 1: "devices c' = devices c \<and> buffer c' = buffer c \<and> lastEventTime c' = lastEventTime c"
      using IH eq by simp
    have 2: "\<forall>e\<in>set (events c'). e \<in> set (events c)
         \<or> (e_type e = REQUEST_GENERATED \<and> (\<exists>s\<in>set (s # ss). e_time e = 0 + s_rng s 0)
            \<and> r_arrivalTime (e_request e) = e_time e
            \<and> r_bufferEnterTime (e_request e) = r_arrivalTime (e_request e))"
    proof
      fix e assume "e \<in> set (events c')"
      with IH eq consider "e \<in> set (events c)" | "e = ?ev"
        | "e_type e = REQUEST_GENERATED \<and> (\<exists>s\<in>set ss. e_time e = 0 + s_rng s 0)
            \<and> r_arrivalTime (e_request e) = e_time e
            \<and> r_bufferEnterTime (e_request e) = r_arrivalTime (e_request e)"
        by auto
      then show "e \<in> set (events c)
         \<or> (e_type e = REQUEST_GENERATED \<and> (\<exists>s\<in>set (s # ss). e_time e = 0 + s_rng s 0)
            \<and> r_arrivalTime (e_request e) = e_time e
            \<and> r_bufferEnterTime (e_request e) = r_arrivalTime (e_request e))"
      proof cases
        case 1
        then show ?thesis by simp
      next
        case 2
        then show ?thesis by (simp add: createRequest_def new_Request_def)
      next
        case 3
        then show ?thesis by auto
      qed
    qed
    have 3: "\<forall>s'\<in>set ss'. s' \<in> set (s # ss) \<or> (\<exists>x\<in>set (s # ss). s_rng s' = (\<lambda>n. s_rng x (Suc n)))"
      using IH eq by auto
    show ?thesis using 1 2 3 by blast
  qed
qed

lemma run_start_effect:
  fixes nc np nf nd mx ss ds
  defines "c0 \<equiv> new_Controller nc np nf nd mx ss ds"
  defines "c \<equiv> run_start nc np nf nd mx ss ds"
  shows "devices c = devices c0" and "buffer c = []" and "lastEventTime c = 0"
    and "\<forall>e\<in>set (events c). e_type e = REQUEST_GENERATED
           \<and> (\<exists>s\<in>set (sources c0). e_time e = 0 + s_rng s 0)
           \<and> r_arrivalTime (e_request e) = e_time e
           \<and> r_bufferEnterTime (e_request e) = r_arrivalTime (e_request e)"
    and "\<forall>s'\<in>set (sources c). s' \<in> set (sources c0)
           \<or> (\<exists>s\<in>set (sources c0). s_rng s' = (\<lambda>n. s_rng s (Suc n)))"
proof -
  obtain ss' c' where l: "initRequests_loop (sources c0) c0 = (ss', c')" by fastforce
  have c: "c = c'\<lparr>sources := ss'\<rparr>"
    by (simp add: c_def run_start_def initRequests_def l c0_def [symmetric])
  have 0: "events c0 = []" "buffer c0 = []" "lastEventTime c0 = 0"
    by (simp_all add: c0_def new_Controller_def Let_def)
  note E = initRequests_loop_effect [OF l]
  show "devices c = devices c0" "buffer c = []" "lastEventTime c = 0"
    using E 0 c by simp_all
  show "\<forall>e\<in>set (events c). e_type e = REQUEST_GENERATED
           \<and> (\<exists>s\<in>set (sources c0). e_time e = 0 + s_rng s 0)
           \<and> r_arrivalTime (e_request e) = e_time e
           \<and> r_bufferEnterTime (e_request e) = r_arrivalTime (e_request e)"
    using E 0 c by simp
  show "\<forall>s'\<in>set (sources c). s' \<in> set (sources c0)
           \<or> (\<exists>s\<in>set (sources c0). s_rng s' = (\<lambda>n. s_rng s (Suc n)))"
    using E c by simp
qed

lemma new_Controller_devices:
  "map d_id (devices (new_Controller nc np nf nd mx ss ds)) = map int [1 ..< Suc (nat nd)]"
  "length (devices (new_Controller nc np nf nd mx ss ds)) = nat nd"
  "\<forall>d\<in>set (devices (new_Controller nc np nf nd mx ss ds)). d_currentRequest d = None"
  by (simp_all add: new_Controller_def Let_def new_Device_def comp_def)

lemma run_start_device_ids_ok: "device_ids_ok (run_start nc np nf nd mx ss ds)"
  using run_start_effect(1,4) [of nc np nf nd mx ss ds] new_Controller_devices(1,2) [of nc np nf nd mx ss ds]
  by (simp add: device_ids_ok_def)

lemma work_iter_device_ids_ok:
  assumes "device_ids_ok c" and "work_iter c c'"
  shows "device_ids_ok c'"
proof -
  from assms(2) obtain e where "e \<in> set (events c)" "work_body e c = Some c'"
    by (rule work_iterE)
  with assms(1) show ?thesis by (rule work_body_device_ids_ok)
qed

lemma reachable_device_ids_ok:
  "work_iter\<^sup>*\<^sup>* (run_start nc np nf nd mx ss ds) c \<Longrightarrow> device_ids_ok c"
  by (induction rule: rtranclp_induct)
     (auto intro: run_start_device_ids_ok work_iter_device_ids_ok)

lemma handleRequestFinished_defined:
  assumes "device_ids_ok c" and "e \<in> set (events c)" and "e_type e = REQUEST_SERVED"
    and "devices c2 = devices c"
  shows "handleRequestFinished (e_deviceId e) t r c2 \<noteq> None"
  using assms by (simp add: handleRequestFinished_def device_ids_ok_def Let_def)

lemma work_iter_progress:
  assumes "device_ids_ok c" and "servedRequestsCount c < maxRequests c" and "events c \<noteq> []"
  shows "\<exists>c'. work_iter c c'"
proof -
  define e where "e = arg_min_list e_time (events c)"
  have e: "e \<in> set (events c)" using assms(3) by (simp add: e_def arg_min_list_in)
  have "e_time e = Min (e_time ` set (events c))"
    using assms(3) by (simp add: e_def f_arg_min_list_f)
  then have top: "\<forall>e'\<in>set (events c). e_time e \<le> e_time e'" by simp
  have "\<exists>c'. work_body e c = Some c'"
  proof (cases "e_type e")
    case REQUEST_GENERATED
    then show ?thesis by (simp add: work_body_def Let_def)
  next
    case REQUEST_SERVED
    have "handleRequestFinished (e_deviceId e) (e_time e) (e_request e)
            (updateLastEventTime (e_time e) (c\<lparr>events := remove1 e (events c)\<rparr>)) \<noteq> None"
      using assms(1) e REQUEST_SERVED
      by (rule handleRequestFinished_defined) (simp add: updateLastEventTime_def)
    then show ?thesis using REQUEST_SERVED by (auto simp: work_body_def Let_def)
  qed
  then show ?thesis using assms(2) e top unfolding work_iter_def is_top_def by blast
qed

lemma work_returns_exists:
  "device_ids_ok c \<Longrightarrow> \<exists>c'. work_returns c c'"
proof (induction c rule: measure_induct_rule [of work_measure])
  case (less c)
  show ?case
  proof (cases "servedRequestsCount c < maxRequests c \<and> events c \<noteq> []")
    case False
    then have "work_returns c c" by (auto simp: work_returns_def)
    then show ?thesis by blast
  next
    case True
    with less.prems obtain c1 where step: "work_iter c c1"
      using work_iter_progress by blast
    have "work_measure c1 < work_measure c" using step by (rule work_iter_measure)
    moreover have "device_ids_ok c1" using less.prems step by (rule work_iter_device_ids_ok)
    ultimately obtain c' where "work_returns c1 c'" using less.IH by blast
    then have "work_returns c c'"
      using step unfolding work_returns_def by (simp add: converse_rtranclp_into_rtranclp)
    then show ?thesis by blast
  qed
qed

lemma length_devices_load:
  "length (devices (loadRequestsToFreeDevices t c)) = length (devices c)"
  using loadRequestsToFreeDevices_effect(1) [of "loadRequestsToFreeDevices t c" t c]
  by (metis length_map)

lemma work_body_length_devices:
  assumes "work_body e c = Some c'"
  shows "length (devices c') = length (devices c)"
proof -
  define c2 where
    "c2 = updateLastEventTime (e_time e) (c\<lparr>events := remove1 e (events c)\<rparr>)"
  have d2: "devices c2 = devices c"
    by (simp add: c2_def updateLastEventTime_def)
  show ?thesis
  proof (cases "e_type e")
    case REQUEST_GENERATED
    then have c': "c' = handleRequestGenerated (e_request e) (e_time e) c2"
      using assms by (simp add: work_body_def c2_def Let_def)
    obtain added c3 where a: "addRequest (e_request e) c2 = (added, c3)" by fastforce
    define c4 where "c4 = (if \<not> added then c3 else loadRequestsToFreeDevices (e_time e) c3)"
    define known where "known =
      (r_sourceIndex (e_request e) \<ge> 0 \<and> r_sourceIndex (e_request e) < int (length (sources c4)))"
    have c'': "c' = (if known then scheduleNextRequest (nat (r_sourceIndex (e_request e))) (e_time e) c4
                    else c4)"
      using c' a by (simp add: handleRequestGenerated_def c4_def known_def Let_def)
    have d3: "devices c3 = devices c2" using addRequest_counts [OF a] by simp
    have l4: "length (devices c4) = length (devices c3)"
      by (cases added) (simp_all add: c4_def length_devices_load)
    have "devices c' = devices c4"
      using c'' scheduleNextRequest_effect(4) [of _ "nat (r_sourceIndex (e_request e))" "e_time e" c4]
      by (cases known) simp_all
    then show ?thesis using l4 d3 d2 by simp
  next
    case REQUEST_SERVED
    then have h: "handleRequestFinished (e_deviceId e) (e_time e) (e_request e) c2 = Some c'"
      using assms by (simp add: work_body_def c2_def Let_def)
    define i where "i = nat (e_deviceId e - 1)"
    define c3 where "c3 = c2\<lparr>devices := (devices c2)[i := freeDevice (e_time e) (devices c2 ! i)]\<rparr>"
    have c': "c' = loadRequestsToFreeDevices (e_time e) c3"
      using h by (simp add: handleRequestFinished_def c3_def i_def Let_def split: if_splits)
    have "length (devices c3) = length (devices c2)" by (simp add: c3_def)
    then show ?thesis using c' d2 by (simp add: length_devices_load)
  qed
qed

lemma reachable_length_devices:
  "work_iter\<^sup>*\<^sup>* (run_start nc np nf nd mx ss ds) c \<Longrightarrow> length (devices c) = nat nd"
proof (induction rule: rtranclp_induct)
  case base
  show ?case
    using run_start_effect(1) [of nc np nf nd mx ss ds] new_Controller_devices(2) [of nc np nf nd mx ss ds]
    by simp
next
  case (step c c')
  from step(2) obtain e where "work_body e c = Some c'" by (rule work_iterE)
  then show ?case using step(3) by (simp add: work_body_length_devices)
qed

lemma reachable_maxRequests:
  "work_iter\<^sup>*\<^sup>* (run_start nc np nf nd mx ss ds) c \<Longrightarrow> maxRequests c = mx"
proof (induction rule: rtranclp_induct)
  case base
  obtain ss' c' where l: "initRequests_loop
      (sources (new_Controller nc np nf nd mx ss ds)) (new_Controller nc np nf nd mx ss ds) = (ss', c')"
    by fastforce
  have "maxRequests c' = mx"
    using initRequests_loop_counts [OF l] by (simp add: new_Controller_def Let_def)
  then show ?case by (simp add: run_start_def initRequests_def l)
next
  case (step c c')
  then show ?case by (simp add: work_iter_maxRequests)
qed

lemma work_returns_reachable:
  "work_returns c c' \<Longrightarrow> work_iter\<^sup>*\<^sup>* c c'"
  by (simp add: work_returns_def)

text \<open>
  C9. In every state a run reaches at the head of the loop, the vector holds the
  \<open>numDevices\<close> devices of the constructor, and every REQUEST_SERVED event in the queue
  carries a device id between 1 and their number, which is the id of the device at position
  \<open>deviceId - 1\<close>; so the access in \<open>handleRequestFinished\<close> is in bounds.
\<close>

theorem served_event_device_in_bounds:
  assumes "work_iter\<^sup>*\<^sup>* (run_start nc np nf nd mx ss ds) c"
    and "e \<in> set (events c)" and "e_type e = REQUEST_SERVED"
  shows "length (devices c) = nat nd
         \<and> 1 \<le> e_deviceId e \<and> e_deviceId e \<le> int (length (devices c))
         \<and> d_id (devices c ! nat (e_deviceId e - 1)) = e_deviceId e
         \<and> handleRequestFinished (e_deviceId e) t r c \<noteq> None"
proof -
  have ok: "device_ids_ok c" using assms(1) by (rule reachable_device_ids_ok)
  have len: "length (devices c) = nat nd" using assms(1) by (rule reachable_length_devices)
  have rng: "1 \<le> e_deviceId e" "e_deviceId e \<le> int (length (devices c))"
    using ok assms(2,3) by (simp_all add: device_ids_ok_def)
  define i where "i = nat (e_deviceId e - 1)"
  have i: "i < length (devices c)" "int i + 1 = e_deviceId e" using rng by (simp_all add: i_def)
  have "map d_id (devices c) ! i = map int [1 ..< Suc (length (devices c))] ! i"
    using ok by (simp add: device_ids_ok_def)
  moreover have "map int [1 ..< Suc (length (devices c))] ! i = int (1 + i)"
    using i(1) by (simp del: upt_Suc)
  ultimately have "d_id (devices c ! i) = int (1 + i)"
    using i(1) by simp
  then have id: "d_id (devices c ! nat (e_deviceId e - 1)) = e_deviceId e"
    using i(2) by (simp add: i_def)
  have "handleRequestFinished (e_deviceId e) t r c \<noteq> None"
    using ok assms(2,3) by (rule handleRequestFinished_defined) simp
  then show ?thesis using len rng id by simp
qed

theorem served_event_device_in_bounds_witness:
  "work_iter\<^sup>*\<^sup>* (run_start 1 0 0 1 1 unit_seeds unit_seeds) demo_final
   \<and> events demo_final \<noteq> []
   \<and> e_type (hd (events demo_final)) = REQUEST_SERVED
   \<and> length (devices demo_final) = 1
   \<and> e_deviceId (hd (events demo_final)) = 1
   \<and> d_id (devices demo_final ! 0) = 1
   \<and> handleRequestFinished 1 2 demo_request demo_final \<noteq> None"
proof -
  have r: "work_iter\<^sup>*\<^sup>* (run_start 1 0 0 1 1 unit_seeds unit_seeds) demo_final"
    using demo_iter by (simp add: demo_start_def)
  have e: "hd (events demo_final) \<in> set (events demo_final)"
    "e_type (hd (events demo_final)) = REQUEST_SERVED"
    by (simp_all add: demo_final_def)
  from served_event_device_in_bounds [OF r e, of 2 demo_request] r
  show ?thesis by (simp add: demo_final_def)
qed

text \<open>
  On every run the counters stay within the range of \<open>int\<close>: they lie between 0 and the
  configured target.
\<close>

lemma counters_bounded:
  assumes "work_iter\<^sup>*\<^sup>* (run_start nc np nf nd mx ss ds) c"
  shows "0 \<le> servedRequestsCount c \<and> 0 \<le> rejectedRequests c
         \<and> servedRequestsCount c \<le> generatedRequestsCount c
         \<and> rejectedRequests c \<le> generatedRequestsCount c
         \<and> generatedRequestsCount c \<le> max 0 mx
         \<and> globalRequestId c = generatedRequestsCount c"
proof -
  have "counters_ok c" using assms by (rule reachable_counters_ok)
  moreover have "maxRequests c = mx" using assms by (rule reachable_maxRequests)
  ultimately show ?thesis by (simp add: counters_ok_def conservation_def)
qed

text \<open>
  The per-priority rejected counters: every step of a run keeps them non-negative and
  adding up to the global rejected counter.
\<close>

lemma priority_split_frame:
  "priority_split c \<Longrightarrow> rejectedByPriority c' = rejectedByPriority c \<Longrightarrow>
   rejectedRequests c' = rejectedRequests c \<Longrightarrow> priority_split c'"
  by (simp add: priority_split_def)

lemma priority_split_increment:
  assumes "priority_split c"
  shows "priority_split
           (c\<lparr>rejectedRequests := rejectedRequests c + 1,
              rejectedByPriority := (rejectedByPriority c)(pr := rejectedByPriority c pr + 1)\<rparr>)"
  using assms by (cases pr) (simp_all add: priority_split_def)

lemma addRequest_priority_split:
  assumes "addRequest req c = (added, c')" and "priority_split c"
  shows "priority_split c'"
proof (cases rule: addRequest_cases [of c req])
  case insert
  then have "rejectedByPriority c' = rejectedByPriority c" "rejectedRequests c' = rejectedRequests c"
    using assms(1) by auto
  with assms(2) show ?thesis by (rule priority_split_frame)
next
  case (evict i)
  define pr where "pr = r_priority (buffer c ! i)"
  define c1 where "c1 = c\<lparr>rejectedRequests := rejectedRequests c + 1,
              rejectedByPriority := (rejectedByPriority c)(pr := rejectedByPriority c pr + 1)\<rparr>"
  have "priority_split c1" unfolding c1_def using assms(2) by (rule priority_split_increment)
  moreover have "rejectedByPriority c' = rejectedByPriority c1" "rejectedRequests c' = rejectedRequests c1"
    using evict assms(1) by (auto simp: evict_eq c1_def pr_def)
  ultimately show ?thesis by (rule priority_split_frame)
next
  case reject
  define c1 where "c1 = c\<lparr>rejectedRequests := rejectedRequests c + 1,
              rejectedByPriority := (rejectedByPriority c)
                (r_priority req := rejectedByPriority c (r_priority req) + 1)\<rparr>"
  have "priority_split c1" unfolding c1_def using assms(2) by (rule priority_split_increment)
  moreover have "c' = c1" using reject assms(1) by (auto simp: reject_eq c1_def)
  ultimately show ?thesis by simp
qed

lemma load_loop_rejectedByPriority:
  "load_loop t ds c = (ds', c') \<Longrightarrow> rejectedByPriority c' = rejectedByPriority c"
proof (induction ds arbitrary: c ds' c')
  case Nil
  then show ?case by simp
next
  case (Cons d ds)
  from Cons.prems show ?case
  proof (cases rule: load_loop_Cons_cases)
    case (busy ds1)
    from Cons.IH [OF busy(2)] show ?thesis .
  next
    case empty
    then show ?thesis by simp
  next
    case (dispatch r rs ds1)
    from Cons.IH [OF dispatch(3)] show ?thesis by simp
  qed
qed

lemma loadRequestsToFreeDevices_priority_split:
  "priority_split (loadRequestsToFreeDevices t c) = priority_split c"
proof -
  obtain ds c1 where l: "load_loop t (devices c) c = (ds, c1)" by fastforce
  then have c': "loadRequestsToFreeDevices t c = c1\<lparr>devices := ds\<rparr>"
    by (simp add: loadRequestsToFreeDevices_def)
  show ?thesis
    unfolding c' using load_loop_rejectedByPriority [OF l] load_loop_counts [OF l]
    by (simp add: priority_split_def)
qed

lemma scheduleNextRequest_priority_split:
  "priority_split (scheduleNextRequest i t c) = priority_split c"
  by (auto simp: scheduleNextRequest_def Let_def pushEvent_def priority_split_def
      split: prod.splits)

lemma handleRequestGenerated_priority_split:
  assumes "priority_split c"
  shows "priority_split (handleRequestGenerated req t c)"
proof -
  obtain added c1 where a: "addRequest req c = (added, c1)" by fastforce
  define c2 where "c2 = (if \<not> added then c1 else loadRequestsToFreeDevices t c1)"
  define known where
    "known = (r_sourceIndex req \<ge> 0 \<and> r_sourceIndex req < int (length (sources c2)))"
  have c': "handleRequestGenerated req t c =
              (if known then scheduleNextRequest (nat (r_sourceIndex req)) t c2 else c2)"
    using a by (simp add: handleRequestGenerated_def c2_def known_def Let_def)
  have "priority_split c1" using a assms by (rule addRequest_priority_split)
  then have "priority_split c2"
    by (simp add: c2_def loadRequestsToFreeDevices_priority_split)
  then show ?thesis unfolding c' by (simp add: scheduleNextRequest_priority_split)
qed

lemma handleRequestFinished_priority_split:
  assumes "handleRequestFinished deviceId t req c = Some c'" and "priority_split c"
  shows "priority_split c'"
proof -
  define c1 where "c1 = c\<lparr>devices := (devices c)[nat (deviceId - 1) :=
                          freeDevice t (devices c ! nat (deviceId - 1))]\<rparr>"
  have c': "c' = loadRequestsToFreeDevices t c1"
    using assms(1) by (simp add: handleRequestFinished_def c1_def Let_def split: if_splits)
  have "priority_split c1" using assms(2) by (simp add: c1_def priority_split_def)
  then show ?thesis unfolding c' by (simp add: loadRequestsToFreeDevices_priority_split)
qed

lemma work_body_priority_split:
  assumes "work_body e c = Some c'" and "priority_split c"
  shows "priority_split c'"
proof -
  define c2 where
    "c2 = updateLastEventTime (e_time e) (c\<lparr>events := remove1 e (events c)\<rparr>)"
  have c2: "priority_split c2"
    using assms(2) by (simp add: c2_def updateLastEventTime_def priority_split_def)
  show ?thesis
  proof (cases "e_type e")
    case REQUEST_GENERATED
    then have "c' = handleRequestGenerated (e_request e) (e_time e) c2"
      using assms(1) by (simp add: work_body_def c2_def Let_def)
    then show ?thesis using c2 by (simp add: handleRequestGenerated_priority_split)
  next
    case REQUEST_SERVED
    then have "handleRequestFinished (e_deviceId e) (e_time e) (e_request e) c2 = Some c'"
      using assms(1) by (simp add: work_body_def c2_def Let_def)
    then show ?thesis using c2 by (rule handleRequestFinished_priority_split)
  qed
qed

lemma initRequests_loop_rejectedByPriority:
  "initRequests_loop ss c = (ss', c') \<Longrightarrow> rejectedByPriority c' = rejectedByPriority c"
proof (induction ss arbitrary: c ss' c')
  case Nil
  then show ?case by simp
next
  case (Cons s ss)
  show ?case
  proof (cases "generatedRequestsCount c \<ge> maxRequests c")
    case True
    then show ?thesis using Cons.prems by simp
  next
    case False
    let ?s' = "snd (generateInterArrivalTime 0 s)"
    let ?c3 = "pushEvent \<lparr>e_type = REQUEST_GENERATED, e_time = 0 + fst (generateInterArrivalTime 0 s),
                   e_request = createRequest ?s' (globalRequestId c + 1) (0 + fst (generateInterArrivalTime 0 s)),
                   e_deviceId = - 1\<rparr>
                 (c\<lparr>globalRequestId := globalRequestId c + 1,
                    generatedRequestsCount := generatedRequestsCount c + 1\<rparr>)"
    obtain ss1 where rec: "initRequests_loop ss ?c3 = (ss1, c')"
      using Cons.prems False by (auto simp: Let_def split: prod.splits)
    show ?thesis using Cons.IH [OF rec] by (simp add: pushEvent_def)
  qed
qed

lemma run_start_priority_split:
  "priority_split (run_start nc np nf nd mx ss ds)"
proof -
  let ?c = "new_Controller nc np nf nd mx ss ds"
  obtain ss' c' where l: "initRequests_loop (sources ?c) ?c = (ss', c')" by fastforce
  have "rejectedByPriority c' = (\<lambda>_. 0)" "rejectedRequests c' = 0"
    using initRequests_loop_rejectedByPriority [OF l] initRequests_loop_counts [OF l]
    by (simp_all add: new_Controller_def Let_def)
  then have "priority_split (c'\<lparr>sources := ss'\<rparr>)" by (simp add: priority_split_def)
  then show ?thesis by (simp add: run_start_def initRequests_def l)
qed

lemma reachable_priority_split:
  "work_iter\<^sup>*\<^sup>* (run_start nc np nf nd mx ss ds) c \<Longrightarrow> priority_split c"
proof (induction rule: rtranclp_induct)
  case base
  show ?case by (rule run_start_priority_split)
next
  case (step c c')
  from step(2) obtain e where "work_body e c = Some c'" by (rule work_iterE)
  then show ?case using step(3) by (rule work_body_priority_split)
qed

text \<open>
  So on every run each per-priority rejected counter lies between 0 and the global
  rejected counter, and with a target that is an \<open>int\<close> all counters stay within the
  range of \<open>int\<close>. Where an arrival event waits in the queue (as it does when the loop
  calls addRequest) the rejected counters are below \<open>INT_MAX\<close>, so their increments do
  not overflow.
\<close>

lemma rejectedByPriority_bounded:
  assumes "work_iter\<^sup>*\<^sup>* (run_start nc np nf nd mx ss ds) c"
  shows "0 \<le> rejectedByPriority c p \<and> rejectedByPriority c p \<le> rejectedRequests c
         \<and> rejectedByPriority c CORPORATE + rejectedByPriority c PREMIUM
             + rejectedByPriority c FREE = rejectedRequests c"
  using reachable_priority_split [OF assms] by (cases p) (simp_all add: priority_split_def)

lemma counters_in_int_range:
  assumes "work_iter\<^sup>*\<^sup>* (run_start nc np nf nd mx ss ds) c" and "mx \<le> INT_MAX"
  shows "0 \<le> servedRequestsCount c \<and> servedRequestsCount c \<le> INT_MAX
         \<and> 0 \<le> rejectedRequests c \<and> rejectedRequests c \<le> INT_MAX
         \<and> 0 \<le> rejectedByPriority c p \<and> rejectedByPriority c p \<le> INT_MAX
         \<and> 0 \<le> generatedRequestsCount c \<and> generatedRequestsCount c \<le> INT_MAX
         \<and> globalRequestId c = generatedRequestsCount c"
proof -
  have "max 0 mx \<le> INT_MAX" using assms(2) by (simp add: INT_MAX_def)
  then show ?thesis
    using counters_bounded [OF assms(1)] rejectedByPriority_bounded [OF assms(1), of p]
    by linarith
qed

lemma rejected_below_INT_MAX_at_arrival:
  assumes "work_iter\<^sup>*\<^sup>* (run_start nc np nf nd mx ss ds) c" and "mx \<le> INT_MAX"
    and "e \<in> set (events c)" and "e_type e = REQUEST_GENERATED"
  shows "rejectedRequests c < INT_MAX \<and> rejectedByPriority c p < INT_MAX"
proof -
  have ok: "counters_ok c" using assms(1) by (rule reachable_counters_ok)
  have m: "maxRequests c = mx" using assms(1) by (rule reachable_maxRequests)
  have "e \<in> set (filter (\<lambda>e. e_type e = REQUEST_GENERATED) (events c))"
    using assms(3,4) by simp
  then have p: "0 < pending_arrivals c"
    unfolding pending_arrivals_def by (rule length_pos_if_in_set)
  have g: "generatedRequestsCount c \<le> max 0 (maxRequests c)"
    and s0: "0 \<le> servedRequestsCount c"
    and eq: "generatedRequestsCount c =
               servedRequestsCount c + rejectedRequests c + int (length (buffer c))
               + int (pending_arrivals c)"
    using ok by (simp_all add: counters_ok_def conservation_def)
  have "max 0 mx \<le> INT_MAX" using assms(2) by (simp add: INT_MAX_def)
  then have "rejectedRequests c < INT_MAX" using g s0 eq p m by linarith
  moreover have "rejectedByPriority c p \<le> rejectedRequests c"
    using rejectedByPriority_bounded [OF assms(1), of p] by simp
  ultimately show ?thesis by linarith
qed

text \<open>When \<open>Controller::work\<close> returns, no arrival event waits in the queue.\<close>

lemma no_pending_arrivals_at_return:
  assumes "work_returns (run_start nc np nf nd mx ss ds) c'"
  shows "pending_arrivals c' = 0"
proof (cases "events c' = []")
  case True
  then show ?thesis by (simp add: pending_arrivals_def)
next
  case False
  have r: "work_iter\<^sup>*\<^sup>* (run_start nc np nf nd mx ss ds) c'"
    using assms by (rule work_returns_reachable)
  have ok: "counters_ok c'" using r by (rule reachable_counters_ok)
  have "\<not> servedRequestsCount c' < maxRequests c'"
    using assms False by (simp add: work_returns_def)
  then have s: "maxRequests c' \<le> servedRequestsCount c'" by simp
  have g: "generatedRequestsCount c' \<le> max 0 (maxRequests c')"
    and s0: "0 \<le> servedRequestsCount c'" and r0: "0 \<le> rejectedRequests c'"
    and eq: "generatedRequestsCount c' =
               servedRequestsCount c' + rejectedRequests c' + int (length (buffer c'))
               + int (pending_arrivals c')"
    using ok by (simp_all add: counters_ok_def conservation_def)
  have "generatedRequestsCount c' \<le> servedRequestsCount c'" using g s s0 by linarith
  then have "int (pending_arrivals c') \<le> 0" using eq r0 by linarith
  then show ?thesis by simp
qed

text \<open>
  C3 (as amended). \<open>Controller::work\<close> returns, and whenever it returns the generated
  counter equals the served counter plus the rejected counter plus the number of requests
  in the buffer. (The served counter counts every dispatched request, those still loaded
  on a device included, so the requests on devices are not added again.)
\<close>

theorem conservation_at_return:
  "(\<exists>c'. work_returns (run_start nc np nf nd mx ss ds) c')
   \<and> (\<forall>c'. work_returns (run_start nc np nf nd mx ss ds) c' \<longrightarrow>
          generatedRequestsCount c' =
            servedRequestsCount c' + rejectedRequests c' + int (length (buffer c')))"
proof -
  have "\<exists>c'. work_returns (run_start nc np nf nd mx ss ds) c'"
    using run_start_device_ids_ok by (rule work_returns_exists)
  moreover have "generatedRequestsCount c' =
            servedRequestsCount c' + rejectedRequests c' + int (length (buffer c'))"
    if w: "work_returns (run_start nc np nf nd mx ss ds) c'" for c'
  proof -
    have "counters_ok c'"
      using w by (intro reachable_counters_ok work_returns_reachable)
    then have "generatedRequestsCount c' =
               servedRequestsCount c' + rejectedRequests c' + int (length (buffer c'))
               + int (pending_arrivals c')"
      by (simp add: counters_ok_def conservation_def)
    then show ?thesis using no_pending_arrivals_at_return [OF w] by simp
  qed
  ultimately show ?thesis by blast
qed

theorem conservation_at_return_witness:
  "work_returns (run_start 1 0 0 1 1 unit_seeds unit_seeds) demo_final
   \<and> generatedRequestsCount demo_final = 1 \<and> servedRequestsCount demo_final = 1
   \<and> rejectedRequests demo_final = 0 \<and> length (buffer demo_final) = 0
   \<and> generatedRequestsCount demo_final =
        servedRequestsCount demo_final + rejectedRequests demo_final
        + int (length (buffer demo_final))"
proof -
  have r: "work_returns (run_start 1 0 0 1 1 unit_seeds unit_seeds) demo_final"
    using demo_returns by (simp add: demo_start_def)
  from conservation_at_return [of 1 0 0 1 1 unit_seeds unit_seeds] r
  have "generatedRequestsCount demo_final =
        servedRequestsCount demo_final + rejectedRequests demo_final
        + int (length (buffer demo_final))"
    by blast
  then show ?thesis using r by (simp add: demo_final_def)
qed

text \<open>
  C3 as stated fails: in the small run the one request is generated, dispatched (and so
  counted as served) and still loaded on the device when \<open>work\<close> returns, so
  served + rejected + resident is 2 while generated is 1.
\<close>

theorem conservation_with_devices_fails:
  "work_returns (run_start 1 0 0 1 1 unit_seeds unit_seeds) demo_final
   \<and> generatedRequestsCount demo_final = 1 \<and> servedRequestsCount demo_final = 1
   \<and> rejectedRequests demo_final = 0 \<and> resident demo_final = 1
   \<and> generatedRequestsCount demo_final \<noteq>
        servedRequestsCount demo_final + rejectedRequests demo_final + int (resident demo_final)"
proof -
  have r: "work_returns (run_start 1 0 0 1 1 unit_seeds unit_seeds) demo_final"
    using demo_returns by (simp add: demo_start_def)
  then show ?thesis by (simp add: demo_final_def resident_def loaded_requests_def)
qed

text \<open>
  C10 (as amended). \<open>Controller::work\<close> returns, and whenever it returns the event
  queue is empty or the served counter has reached the target; the served counter never
  exceeds the target, or 0 when the target is negative.
\<close>

theorem work_exit_and_target:
  "(\<exists>c'. work_returns (run_start nc np nf nd mx ss ds) c')
   \<and> (\<forall>c'. work_returns (run_start nc np nf nd mx ss ds) c' \<longrightarrow>
          (events c' = [] \<or> servedRequestsCount c' \<ge> mx)
          \<and> servedRequestsCount c' \<le> max 0 mx)"
proof -
  have "\<exists>c'. work_returns (run_start nc np nf nd mx ss ds) c'"
    using run_start_device_ids_ok by (rule work_returns_exists)
  moreover have "(events c' = [] \<or> servedRequestsCount c' \<ge> mx)
          \<and> servedRequestsCount c' \<le> max 0 mx"
    if w: "work_returns (run_start nc np nf nd mx ss ds) c'" for c'
  proof -
    have r: "work_iter\<^sup>*\<^sup>* (run_start nc np nf nd mx ss ds) c'"
      using w by (rule work_returns_reachable)
    have m: "maxRequests c' = mx" using r by (rule reachable_maxRequests)
    have "events c' = [] \<or> servedRequestsCount c' \<ge> mx"
      using w m by (auto simp: work_returns_def)
    moreover have "servedRequestsCount c' \<le> max 0 mx"
      using counters_bounded [OF r] by linarith
    ultimately show ?thesis by simp
  qed
  ultimately show ?thesis by blast
qed

theorem work_exit_and_target_witness:
  "work_returns (run_start 1 0 0 1 1 unit_seeds unit_seeds) demo_final
   \<and> events demo_final \<noteq> [] \<and> servedRequestsCount demo_final = 1
   \<and> (events demo_final = [] \<or> servedRequestsCount demo_final \<ge> 1)
   \<and> servedRequestsCount demo_final \<le> max 0 1"
proof -
  have r: "work_returns (run_start 1 0 0 1 1 unit_seeds unit_seeds) demo_final"
    using demo_returns by (simp add: demo_start_def)
  from work_exit_and_target [of 1 0 0 1 1 unit_seeds unit_seeds] r
  have "(events demo_final = [] \<or> servedRequestsCount demo_final \<ge> 1)
        \<and> servedRequestsCount demo_final \<le> max 0 1"
    by blast
  then show ?thesis using r by (simp add: demo_final_def)
qed

text \<open>
  C10 as stated fails: no run returns with a served counter above the target (above 0
  for a negative target), since served \<open>\<le>\<close> generated \<open>\<le>\<close> target.
\<close>

theorem served_never_exceeds_target:
  "\<not> (\<exists>nc np nf nd mx ss ds c'.
        work_returns (run_start nc np nf nd mx ss ds) c' \<and> servedRequestsCount c' > max 0 mx)"
proof
  assume "\<exists>nc np nf nd mx ss ds c'.
        work_returns (run_start nc np nf nd mx ss ds) c' \<and> servedRequestsCount c' > max 0 mx"
  then obtain nc np nf nd mx ss ds c' where
    w: "work_returns (run_start nc np nf nd mx ss ds) c'" and s: "servedRequestsCount c' > max 0 mx"
    by blast
  have "work_iter\<^sup>*\<^sup>* (run_start nc np nf nd mx ss ds) c'"
    using w by (rule work_returns_reachable)
  from counters_bounded [OF this] s show False by linarith
qed

section \<open>The event loop: buffer entry times\<close>

lemma in_current_requests:
  "r \<in> set (concat (map (\<lambda>d. case d_currentRequest d of None \<Rightarrow> [] | Some r \<Rightarrow> [r]) ds))
   \<longleftrightarrow> (\<exists>d\<in>set ds. d_currentRequest d = Some r)"
  by (induction ds) (auto split: option.splits)

lemma in_loaded_requests:
  "r \<in> set (loaded_requests c) \<longleftrightarrow> (\<exists>d\<in>set (devices c). d_currentRequest d = Some r)"
  unfolding loaded_requests_def by (rule in_current_requests)

lemma in_dispatched_requests:
  "r \<in> set (dispatched_requests c) \<longleftrightarrow>
     (\<exists>e\<in>set (events c). e_type e = REQUEST_SERVED \<and> e_request e = r)
     \<or> (\<exists>d\<in>set (devices c). d_currentRequest d = Some r)"
  by (auto simp: dispatched_requests_def in_loaded_requests)

lemma in_held_requests:
  "r \<in> set (held_requests c) \<longleftrightarrow>
     (\<exists>e\<in>set (events c). e_request e = r) \<or> r \<in> set (buffer c)
     \<or> (\<exists>d\<in>set (devices c). d_currentRequest d = Some r)"
  by (auto simp: held_requests_def in_loaded_requests)

lemma enter_stamped_iff:
  "enter_stamped c \<longleftrightarrow>
     (\<forall>e\<in>set (events c). r_bufferEnterTime (e_request e) = r_arrivalTime (e_request e))
     \<and> (\<forall>r\<in>set (buffer c). r_bufferEnterTime r = r_arrivalTime r)
     \<and> (\<forall>d\<in>set (devices c). \<forall>r. d_currentRequest d = Some r \<longrightarrow>
           r_bufferEnterTime r = r_arrivalTime r)"
proof -
  have "enter_stamped c \<longleftrightarrow> (\<forall>r. r \<in> set (held_requests c) \<longrightarrow> r_bufferEnterTime r = r_arrivalTime r)"
    by (auto simp: enter_stamped_def)
  then show ?thesis unfolding in_held_requests by blast
qed

lemma enter_stamped_load:
  assumes "enter_stamped c"
  shows "enter_stamped (loadRequestsToFreeDevices t c)"
proof -
  define c' where "c' = loadRequestsToFreeDevices t c"
  note E = loadRequestsToFreeDevices_effect [OF c'_def]
  note A = assms [unfolded enter_stamped_iff]
  have 1: "r_bufferEnterTime (e_request e) = r_arrivalTime (e_request e)"
    if "e \<in> set (events c')" for e
  proof -
    from E(3) that consider "e \<in> set (events c)"
      | r where "r \<in> set (buffer c)" "e_request e = r\<lparr>r_startServiceTime := t\<rparr>"
      by blast
    then show ?thesis
    proof cases
      case 1
      then show ?thesis using A by blast
    next
      case 2
      then show ?thesis using A by simp
    qed
  qed
  have 2: "r_bufferEnterTime r = r_arrivalTime r" if "r \<in> set (buffer c')" for r
    using E(2) that A by blast
  have 3: "r_bufferEnterTime r = r_arrivalTime r"
    if "d \<in> set (devices c')" "d_currentRequest d = Some r" for d r
  proof -
    from E(4) that(1) consider "d \<in> set (devices c)"
      | r0 where "r0 \<in> set (buffer c)" "d_currentRequest d = Some (r0\<lparr>r_startServiceTime := t\<rparr>)"
      by blast
    then show ?thesis
    proof cases
      case 1
      then show ?thesis using A that(2) by blast
    next
      case 2
      then have "r = r0\<lparr>r_startServiceTime := t\<rparr>" using that(2) by simp
      then show ?thesis using A 2(1) by simp
    qed
  qed
  show ?thesis unfolding c'_def [symmetric] enter_stamped_iff using 1 2 3 by blast
qed

lemma set_devices_freed:
  "set (ds[i := freeDevice t (ds ! i)]) \<subseteq> insert (freeDevice t (ds ! i)) (set ds)"
  by (rule set_update_subset_insert)

lemma enter_stamped_work_body:
  assumes "enter_stamped c" and "e \<in> set (events c)" and "work_body e c = Some c'"
  shows "enter_stamped c'"
proof -
  define c2 where
    "c2 = updateLastEventTime (e_time e) (c\<lparr>events := remove1 e (events c)\<rparr>)"
  have f2: "devices c2 = devices c" "buffer c2 = buffer c" "events c2 = remove1 e (events c)"
    by (simp_all add: c2_def updateLastEventTime_def)
  note A = assms(1) [unfolded enter_stamped_iff]
  have req: "r_bufferEnterTime (e_request e) = r_arrivalTime (e_request e)"
    using A assms(2) by blast
  have "\<forall>x\<in>set (events c2). x \<in> set (events c)"
    unfolding f2 using set_remove1_subset [of e "events c"] by blast
  then have ok2: "enter_stamped c2"
    unfolding enter_stamped_iff f2(1,2) using A by blast
  show ?thesis
  proof (cases "e_type e")
    case REQUEST_GENERATED
    then have c': "c' = handleRequestGenerated (e_request e) (e_time e) c2"
      using assms(3) by (simp add: work_body_def c2_def Let_def)
    obtain added c3 where a: "addRequest (e_request e) c2 = (added, c3)" by fastforce
    define c4 where "c4 = (if \<not> added then c3 else loadRequestsToFreeDevices (e_time e) c3)"
    define known where "known =
      (r_sourceIndex (e_request e) \<ge> 0 \<and> r_sourceIndex (e_request e) < int (length (sources c4)))"
    have c'': "c' = (if known then scheduleNextRequest (nat (r_sourceIndex (e_request e))) (e_time e) c4
                    else c4)"
      using c' a by (simp add: handleRequestGenerated_def c4_def known_def Let_def)
    have f3: "devices c3 = devices c2" "events c3 = events c2"
      using addRequest_counts [OF a] by simp_all
    have "r_bufferEnterTime r = r_arrivalTime r" if "r \<in> set (buffer c3)" for r
    proof -
      from addRequest_buffer [OF a] that
      consider "r = stamp_enter (e_request e)" | "r \<in> set (buffer c2)" by blast
      then show ?thesis
      proof cases
        case 1
        then show ?thesis by (simp add: stamp_enter_def)
      next
        case 2
        then show ?thesis using ok2 unfolding enter_stamped_iff by blast
      qed
    qed
    then have "enter_stamped c3"
      using ok2 unfolding enter_stamped_iff f3 by blast
    then have ok4: "enter_stamped c4"
      by (cases added) (simp_all add: c4_def enter_stamped_load)
    show ?thesis
    proof (cases known)
      case True
      then have s: "c' = scheduleNextRequest (nat (r_sourceIndex (e_request e))) (e_time e) c4"
        using c'' by simp
      note S = scheduleNextRequest_effect [OF s]
      have "r_bufferEnterTime (e_request x) = r_arrivalTime (e_request x)"
        if "x \<in> set (events c')" for x
        using S(1) that ok4 unfolding enter_stamped_iff by blast
      then show ?thesis
        using ok4 unfolding enter_stamped_iff S(3,4) by blast
    next
      case False
      then show ?thesis using c'' ok4 by simp
    qed
  next
    case REQUEST_SERVED
    then have h: "handleRequestFinished (e_deviceId e) (e_time e) (e_request e) c2 = Some c'"
      using assms(3) by (simp add: work_body_def c2_def Let_def)
    define i where "i = nat (e_deviceId e - 1)"
    define c3 where "c3 = c2\<lparr>devices := (devices c2)[i := freeDevice (e_time e) (devices c2 ! i)]\<rparr>"
    have c': "c' = loadRequestsToFreeDevices (e_time e) c3"
      using h by (simp add: handleRequestFinished_def c3_def i_def Let_def split: if_splits)
    have f3: "events c3 = events c2" "buffer c3 = buffer c2"
      by (simp_all add: c3_def)
    have "r_bufferEnterTime r = r_arrivalTime r"
      if "d \<in> set (devices c3)" "d_currentRequest d = Some r" for d r
    proof -
      have "d \<in> insert (freeDevice (e_time e) (devices c2 ! i)) (set (devices c2))"
        using that(1) set_devices_freed [of "devices c2" i "e_time e"] by (auto simp: c3_def)
      moreover have "d_currentRequest (freeDevice (e_time e) (devices c2 ! i)) = None"
        by (simp add: freeDevice_def)
      ultimately have "d \<in> set (devices c2)" using that(2) by auto
      then show ?thesis using ok2 that(2) unfolding enter_stamped_iff by blast
    qed
    then have "enter_stamped c3"
      using ok2 unfolding enter_stamped_iff f3 by blast
    then show ?thesis using c' by (simp add: enter_stamped_load)
  qed
qed

lemma run_start_enter_stamped: "enter_stamped (run_start nc np nf nd mx ss ds)"
  unfolding enter_stamped_iff
  using run_start_effect(1,2,4) [of nc np nf nd mx ss ds]
    new_Controller_devices(3) [of nc np nf nd mx ss ds]
  by simp

lemma reachable_enter_stamped: "reachable c \<Longrightarrow> enter_stamped c"
proof -
  assume "reachable c"
  then obtain nc np nf nd mx ss ds where
    r: "work_iter\<^sup>*\<^sup>* (run_start nc np nf nd mx ss ds) c"
    unfolding reachable_def by blast
  then show ?thesis
  proof (induction rule: rtranclp_induct)
    case base
    show ?case by (rule run_start_enter_stamped)
  next
    case (step c c')
    from step(2) obtain e where "e \<in> set (events c)" "work_body e c = Some c'"
      by (rule work_iterE)
    with step(3) show ?case by (rule enter_stamped_work_body)
  qed
qed

lemma load_loop_wait:
  "load_loop t ds c = (ds', c') \<Longrightarrow>
   \<exists>n\<le>length (buffer c). buffer c' = drop n (buffer c)
     \<and> servedRequestsCount c' = servedRequestsCount c + int n
     \<and> totalWaitTime c' =
         totalWaitTime c + (\<Sum>r\<leftarrow>take n (buffer c). t - r_bufferEnterTime r)"
proof (induction ds arbitrary: c ds' c')
  case Nil
  then have "c' = c" by simp
  then show ?case by (intro exI [of _ 0]) simp
next
  case (Cons d ds)
  from Cons.prems show ?case
  proof (cases rule: load_loop_Cons_cases)
    case (busy ds1)
    from Cons.IH [OF busy(2)] show ?thesis .
  next
    case empty
    then show ?thesis by (intro exI [of _ 0]) simp
  next
    case (dispatch r rs ds1)
    from Cons.IH [OF dispatch(3)] obtain n where n: "n \<le> length rs" "buffer c' = drop n rs"
      "servedRequestsCount c' = servedRequestsCount c + 1 + int n"
      "totalWaitTime c' =
         totalWaitTime c + (t - r_bufferEnterTime r) + (\<Sum>r\<leftarrow>take n rs. t - r_bufferEnterTime r)"
      by auto
    show ?thesis
      using n dispatch(2) by (intro exI [of _ "Suc n"]) simp
  qed
qed

lemma sweep_wait:
  assumes "\<forall>r\<in>set (buffer c). r_bufferEnterTime r = r_arrivalTime r"
  shows "\<exists>n\<le>length (buffer c).
           buffer (loadRequestsToFreeDevices t c) = drop n (buffer c)
           \<and> servedRequestsCount (loadRequestsToFreeDevices t c) = servedRequestsCount c + int n
           \<and> totalWaitTime (loadRequestsToFreeDevices t c) =
               totalWaitTime c + (\<Sum>r\<leftarrow>take n (buffer c). t - r_arrivalTime r)"
proof -
  obtain ds c1 where l: "load_loop t (devices c) c = (ds, c1)" by fastforce
  then have c': "loadRequestsToFreeDevices t c = c1\<lparr>devices := ds\<rparr>"
    by (simp add: loadRequestsToFreeDevices_def)
  from load_loop_wait [OF l] obtain n where n: "n \<le> length (buffer c)"
    "buffer c1 = drop n (buffer c)" "servedRequestsCount c1 = servedRequestsCount c + int n"
    "totalWaitTime c1 =
       totalWaitTime c + (\<Sum>r\<leftarrow>take n (buffer c). t - r_bufferEnterTime r)"
    by blast
  have "map (\<lambda>r. t - r_bufferEnterTime r) (take n (buffer c)) =
        map (\<lambda>r. t - r_arrivalTime r) (take n (buffer c))"
    using assms by (auto dest: in_set_takeD)
  then have "(\<Sum>r\<leftarrow>take n (buffer c). t - r_bufferEnterTime r) =
             (\<Sum>r\<leftarrow>take n (buffer c). t - r_arrivalTime r)"
    by (rule arg_cong)
  then show ?thesis using n c' by (intro exI [of _ n]) simp
qed

lemma addRequest_buffer_stamped:
  assumes "\<forall>r\<in>set (buffer c). r_bufferEnterTime r = r_arrivalTime r"
  shows "\<forall>r\<in>set (buffer (snd (addRequest req c))). r_bufferEnterTime r = r_arrivalTime r"
proof
  fix r assume r: "r \<in> set (buffer (snd (addRequest req c)))"
  obtain added c' where a: "addRequest req c = (added, c')" by fastforce
  from addRequest_buffer [OF a] r a
  consider "r = stamp_enter req" | "r \<in> set (buffer c)" by auto
  then show "r_bufferEnterTime r = r_arrivalTime r"
  proof cases
    case 1
    then show ?thesis by (simp add: stamp_enter_def)
  next
    case 2
    then show ?thesis using assms by blast
  qed
qed

text \<open>
  C8. In every state a run reaches at the head of the loop, every request the controller
  holds (in an event, in the buffer, on a device) has \<open>bufferEnterTime\<close> equal to
  \<open>arrivalTime\<close>; an admission into such a state leaves a buffer of such requests; and a
  sweep of \<open>loadRequestsToFreeDevices\<close> at time \<open>t\<close> over a buffer of such requests
  dispatches the first \<open>n\<close> of them, counts them as served, and adds to the total wait
  time, for each of them, \<open>t\<close> minus its arrival time.
\<close>

theorem bufferEnterTime_is_arrivalTime:
  assumes "reachable c"
  shows "(\<forall>r\<in>set (held_requests c). r_bufferEnterTime r = r_arrivalTime r)
         \<and> (\<forall>r\<in>set (buffer (snd (addRequest req c))). r_bufferEnterTime r = r_arrivalTime r)
         \<and> (\<forall>c1. (\<forall>r\<in>set (buffer c1). r_bufferEnterTime r = r_arrivalTime r) \<longrightarrow>
               (\<exists>n\<le>length (buffer c1).
                  buffer (loadRequestsToFreeDevices t c1) = drop n (buffer c1)
                  \<and> servedRequestsCount (loadRequestsToFreeDevices t c1) =
                      servedRequestsCount c1 + int n
                  \<and> totalWaitTime (loadRequestsToFreeDevices t c1) =
                      totalWaitTime c1 + (\<Sum>r\<leftarrow>take n (buffer c1). t - r_arrivalTime r)))"
proof -
  have s: "enter_stamped c" using assms by (rule reachable_enter_stamped)
  then have 1: "\<forall>r\<in>set (held_requests c). r_bufferEnterTime r = r_arrivalTime r"
    by (simp add: enter_stamped_def)
  have "\<forall>r\<in>set (buffer c). r_bufferEnterTime r = r_arrivalTime r"
    using s unfolding enter_stamped_iff by blast
  then have 2: "\<forall>r\<in>set (buffer (snd (addRequest req c))). r_bufferEnterTime r = r_arrivalTime r"
    by (rule addRequest_buffer_stamped)
  show ?thesis using 1 2 sweep_wait by blast
qed

lemma demo_final_reachable: "reachable demo_final"
  unfolding reachable_def using demo_iter unfolding demo_start_def by blast

theorem bufferEnterTime_is_arrivalTime_witness:
  "reachable demo_final
   \<and> held_requests demo_final = [demo_request, demo_request]
   \<and> r_bufferEnterTime demo_request = r_arrivalTime demo_request
   \<and> map r_bufferEnterTime (buffer sweep_demo) = map r_arrivalTime (buffer sweep_demo)
   \<and> length (buffer (loadRequestsToFreeDevices 3 sweep_demo)) = 1
   \<and> servedRequestsCount (loadRequestsToFreeDevices 3 sweep_demo) = 1
   \<and> totalWaitTime (loadRequestsToFreeDevices 3 sweep_demo) = 3 - 3 / 2"
proof -
  note T = bufferEnterTime_is_arrivalTime [OF demo_final_reachable, of demo_request 3]
  have "\<forall>r\<in>set (held_requests demo_final). r_bufferEnterTime r = r_arrivalTime r"
    using T by blast
  then have "r_bufferEnterTime demo_request = r_arrivalTime demo_request"
    by (simp add: held_requests_def loaded_requests_def demo_final_def)
  then show ?thesis
    using demo_final_reachable
    by (simp add: held_requests_def loaded_requests_def demo_final_def sweep_demo_def
        empty_Controller_def new_Request_def new_Device_def unit_seeds_def
        loadRequestsToFreeDevices_def popRequest_def loadRequest_def draw_def pushEvent_def
        Let_def)
qed

section \<open>The event loop: order of the timestamps\<close>

lemma times_ok_iff:
  "times_ok c \<longleftrightarrow>
     (\<forall>e\<in>set (events c). lastEventTime c \<le> e_time e)
     \<and> (\<forall>e\<in>set (events c). e_type e = REQUEST_GENERATED \<longrightarrow>
           r_arrivalTime (e_request e) = e_time e)
     \<and> (\<forall>r\<in>set (buffer c). r_bufferEnterTime r = r_arrivalTime r
           \<and> r_arrivalTime r \<le> lastEventTime c)
     \<and> (\<forall>e\<in>set (events c). e_type e = REQUEST_SERVED \<longrightarrow> wait_ok (e_request e))
     \<and> (\<forall>d\<in>set (devices c). \<forall>r. d_currentRequest d = Some r \<longrightarrow> wait_ok r)
     \<and> (\<forall>d\<in>set (devices c). \<forall>n. 0 \<le> d_rng d n)
     \<and> (\<forall>s\<in>set (sources c). \<forall>n. 0 \<le> s_rng s n)"
proof -
  have "(\<forall>r\<in>set (dispatched_requests c). wait_ok r) \<longleftrightarrow>
        (\<forall>e\<in>set (events c). e_type e = REQUEST_SERVED \<longrightarrow> wait_ok (e_request e))
        \<and> (\<forall>d\<in>set (devices c). \<forall>r. d_currentRequest d = Some r \<longrightarrow> wait_ok r)"
  proof -
    have "(\<forall>r\<in>set (dispatched_requests c). wait_ok r) \<longleftrightarrow>
          (\<forall>r. r \<in> set (dispatched_requests c) \<longrightarrow> wait_ok r)"
      by auto
    then show ?thesis unfolding in_dispatched_requests by blast
  qed
  then show ?thesis unfolding times_ok_def rngs_nonneg_def by blast
qed

lemma times_ok_load:
  assumes "times_ok c" and "t = lastEventTime c"
  shows "times_ok (loadRequestsToFreeDevices t c)"
proof -
  define c' where "c' = loadRequestsToFreeDevices t c"
  note E = loadRequestsToFreeDevices_effect [OF c'_def]
  note A = assms(1) [unfolded times_ok_iff]
  have new_ok: "wait_ok (r\<lparr>r_startServiceTime := t\<rparr>)" if "r \<in> set (buffer c)" for r
    using A that assms(2) by (simp add: wait_ok_def)
  have 1: "lastEventTime c' \<le> e_time e" if "e \<in> set (events c')" for e
  proof -
    from E(3) that consider "e \<in> set (events c)"
      | d where "d \<in> set (devices c)" "e_time e = t + d_rng d 0"
      by blast
    then show ?thesis
    proof cases
      case 1
      then show ?thesis using A E(6) by simp
    next
      case 2
      then have "0 \<le> d_rng d 0" using A by blast
      then show ?thesis using 2(2) assms(2) E(6) by simp
    qed
  qed
  have 2: "r_arrivalTime (e_request e) = e_time e"
    if "e \<in> set (events c')" "e_type e = REQUEST_GENERATED" for e
  proof -
    from E(3) that have "e \<in> set (events c)" by auto
    then show ?thesis using A that(2) by blast
  qed
  have 3: "r_bufferEnterTime r = r_arrivalTime r \<and> r_arrivalTime r \<le> lastEventTime c'"
    if "r \<in> set (buffer c')" for r
    using E(2,6) that A by auto
  have 4: "wait_ok (e_request e)" if "e \<in> set (events c')" "e_type e = REQUEST_SERVED" for e
  proof -
    from E(3) that(1) consider "e \<in> set (events c)"
      | r where "r \<in> set (buffer c)" "e_request e = r\<lparr>r_startServiceTime := t\<rparr>"
      by blast
    then show ?thesis
    proof cases
      case 1
      then show ?thesis using A that(2) by blast
    next
      case 2
      then show ?thesis using new_ok by simp
    qed
  qed
  have 56: "(\<forall>r. d_currentRequest d = Some r \<longrightarrow> wait_ok r) \<and> (\<forall>n. 0 \<le> d_rng d n)"
    if "d \<in> set (devices c')" for d
  proof -
    from E(4) that consider "d \<in> set (devices c)"
      | r d0 k where "r \<in> set (buffer c)" "d_currentRequest d = Some (r\<lparr>r_startServiceTime := t\<rparr>)"
          "d0 \<in> set (devices c)" "d_rng d = (\<lambda>n. d_rng d0 (n + k))"
      by blast
    then show ?thesis
    proof cases
      case 1
      then show ?thesis using A by blast
    next
      case 2
      have "\<forall>n. 0 \<le> d_rng d0 n" using A 2(3) by blast
      then have "\<forall>n. 0 \<le> d_rng d n" using 2(4) by simp
      then show ?thesis using new_ok [OF 2(1)] 2(2) by simp
    qed
  qed
  have 7: "\<forall>s\<in>set (sources c'). \<forall>n. 0 \<le> s_rng s n" using A E(5) by simp
  show ?thesis unfolding c'_def [symmetric] times_ok_iff using 1 2 3 4 56 7 by blast
qed

lemma times_ok_pop:
  assumes "times_ok c" and "e \<in> set (events c)"
    and "\<forall>e'\<in>set (events c). e_time e \<le> e_time e'"
  defines "c2 \<equiv> updateLastEventTime (e_time e) (c\<lparr>events := remove1 e (events c)\<rparr>)"
  shows "times_ok c2" and "lastEventTime c2 = e_time e"
proof -
  note A = assms(1) [unfolded times_ok_iff]
  have le: "lastEventTime c \<le> e_time e" using A assms(2) by blast
  then show last: "lastEventTime c2 = e_time e"
    by (simp add: c2_def updateLastEventTime_def)
  have f: "devices c2 = devices c" "buffer c2 = buffer c" "sources c2 = sources c"
    "events c2 = remove1 e (events c)"
    by (simp_all add: c2_def updateLastEventTime_def)
  have sub: "\<forall>x\<in>set (events c2). x \<in> set (events c)"
    unfolding f using set_remove1_subset [of e "events c"] by blast
  have 1: "\<forall>x\<in>set (events c2). lastEventTime c2 \<le> e_time x"
    using sub assms(3) last by simp
  have 3: "\<forall>r\<in>set (buffer c2). r_bufferEnterTime r = r_arrivalTime r
             \<and> r_arrivalTime r \<le> lastEventTime c2"
  proof
    fix r assume "r \<in> set (buffer c2)"
    then have "r_bufferEnterTime r = r_arrivalTime r" "r_arrivalTime r \<le> lastEventTime c"
      using A f(2) by simp_all
    then show "r_bufferEnterTime r = r_arrivalTime r \<and> r_arrivalTime r \<le> lastEventTime c2"
      using le last by simp
  qed
  show "times_ok c2"
    unfolding times_ok_iff f(1,3) using 1 3 sub A by blast
qed

lemma times_ok_add:
  assumes "times_ok c" and "r_arrivalTime req = lastEventTime c"
    and "addRequest req c = (added, c')"
  shows "times_ok c'"
proof -
  note A = assms(1) [unfolded times_ok_iff]
  note F = addRequest_counts [OF assms(3)]
  have f: "events c' = events c" "devices c' = devices c" "sources c' = sources c"
    "lastEventTime c' = lastEventTime c"
    using F by simp_all
  have "r_bufferEnterTime r = r_arrivalTime r \<and> r_arrivalTime r \<le> lastEventTime c"
    if "r \<in> set (buffer c')" for r
  proof -
    from addRequest_buffer [OF assms(3)] that
    consider "r = stamp_enter req" | "r \<in> set (buffer c)" by blast
    then show ?thesis
    proof cases
      case 1
      then show ?thesis using assms(2) by (simp add: stamp_enter_def)
    next
      case 2
      then show ?thesis using A by blast
    qed
  qed
  then show ?thesis unfolding times_ok_iff f using A by blast
qed

lemma times_ok_schedule:
  assumes "times_ok c" and "t = lastEventTime c" and "i < length (sources c)"
  shows "times_ok (scheduleNextRequest i t c)"
proof -
  define c' where "c' = scheduleNextRequest i t c"
  note S = scheduleNextRequest_effect [OF c'_def]
  note A = assms(1) [unfolded times_ok_iff]
  have src: "\<forall>n. 0 \<le> s_rng (sources c ! i) n"
    using A assms(3) by (simp add: nth_mem)
  have 1: "lastEventTime c \<le> e_time e
           \<and> (e_type e = REQUEST_GENERATED \<longrightarrow> r_arrivalTime (e_request e) = e_time e)
           \<and> (e_type e = REQUEST_SERVED \<longrightarrow> wait_ok (e_request e))"
    if "e \<in> set (events c')" for e
  proof -
    from S(1) that consider "e \<in> set (events c)"
      | "e_type e = REQUEST_GENERATED" "e_time e = t + s_rng (sources c ! i) 0"
        "r_arrivalTime (e_request e) = e_time e"
      by blast
    then show ?thesis
    proof cases
      case 1
      then show ?thesis using A by simp
    next
      case 2
      have "0 \<le> s_rng (sources c ! i) 0" using src by blast
      then show ?thesis using 2 assms(2) by simp
    qed
  qed
  have 7: "\<forall>n. 0 \<le> s_rng s n" if "s \<in> set (sources c')" for s
  proof -
    let ?s' = "(sources c ! i)\<lparr>s_rng := (\<lambda>n. s_rng (sources c ! i) (Suc n))\<rparr>"
    from S(2) that have "s \<in> insert ?s' (set (sources c))"
      using set_update_subset_insert [of "sources c" i ?s'] by auto
    moreover have "\<forall>n. 0 \<le> s_rng ?s' n" using src by simp
    ultimately show ?thesis using A by blast
  qed
  show ?thesis unfolding c'_def [symmetric] times_ok_iff S(3,4) S(5)
    using 1 7 A by blast
qed

lemma times_ok_free:
  assumes "times_ok c"
  shows "times_ok (c\<lparr>devices := (devices c)[i := freeDevice t (devices c ! i)]\<rparr>)"
proof (cases "i < length (devices c)")
  case False
  then have "length (devices c) \<le> i" by simp
  then have "(devices c)[i := freeDevice t (devices c ! i)] = devices c"
    by (rule list_update_beyond)
  moreover have "c\<lparr>devices := devices c\<rparr> = c" by simp
  ultimately show ?thesis using assms by simp
next
  case True
  note A = assms [unfolded times_ok_iff]
  let ?d = "freeDevice t (devices c ! i)"
  have old: "devices c ! i \<in> set (devices c)" using True by simp
  have d: "d_currentRequest ?d = None" "d_rng ?d = d_rng (devices c ! i)"
    by (simp_all add: freeDevice_def)
  have "(\<forall>r. d_currentRequest x = Some r \<longrightarrow> wait_ok r) \<and> (\<forall>n. 0 \<le> d_rng x n)"
    if "x \<in> set ((devices c)[i := ?d])" for x
  proof -
    from that have "x \<in> insert ?d (set (devices c))"
      using set_update_subset_insert [of "devices c" i ?d] by blast
    then consider "x = ?d" | "x \<in> set (devices c)" by blast
    then show ?thesis
    proof cases
      case 1
      then show ?thesis using d A old by simp
    next
      case 2
      then show ?thesis using A by blast
    qed
  qed
  then show ?thesis unfolding times_ok_iff using A by simp
qed

lemma times_ok_work_body:
  assumes "times_ok c" and "e \<in> set (events c)"
    and "\<forall>e'\<in>set (events c). e_time e \<le> e_time e'" and "work_body e c = Some c'"
  shows "times_ok c'"
proof -
  define c2 where
    "c2 = updateLastEventTime (e_time e) (c\<lparr>events := remove1 e (events c)\<rparr>)"
  have ok2: "times_ok c2" and last2: "lastEventTime c2 = e_time e"
    unfolding c2_def using assms(1-3) by (rule times_ok_pop)+
  show ?thesis
  proof (cases "e_type e")
    case REQUEST_GENERATED
    then have c': "c' = handleRequestGenerated (e_request e) (e_time e) c2"
      using assms(4) by (simp add: work_body_def c2_def Let_def)
    obtain added c3 where a: "addRequest (e_request e) c2 = (added, c3)" by fastforce
    define c4 where "c4 = (if \<not> added then c3 else loadRequestsToFreeDevices (e_time e) c3)"
    define known where "known =
      (r_sourceIndex (e_request e) \<ge> 0 \<and> r_sourceIndex (e_request e) < int (length (sources c4)))"
    have c'': "c' = (if known then scheduleNextRequest (nat (r_sourceIndex (e_request e))) (e_time e) c4
                    else c4)"
      using c' a by (simp add: handleRequestGenerated_def c4_def known_def Let_def)
    have "r_arrivalTime (e_request e) = e_time e"
      using assms(1,2) REQUEST_GENERATED unfolding times_ok_iff by blast
    then have "r_arrivalTime (e_request e) = lastEventTime c2" using last2 by simp
    with ok2 have ok3: "times_ok c3" using a by (rule times_ok_add)
    have last3: "lastEventTime c3 = e_time e" using addRequest_counts [OF a] last2 by simp
    have ok4: "times_ok c4" and last4: "lastEventTime c4 = e_time e"
      using ok3 last3 loadRequestsToFreeDevices_effect(6) [of _ "e_time e" c3]
      by (cases added; simp add: c4_def times_ok_load)+
    show ?thesis
    proof (cases known)
      case True
      then have "nat (r_sourceIndex (e_request e)) < length (sources c4)"
        unfolding known_def by linarith
      with ok4 last4 [symmetric] show ?thesis using c'' True by (simp add: times_ok_schedule)
    next
      case False
      then show ?thesis using c'' ok4 by simp
    qed
  next
    case REQUEST_SERVED
    then have h: "handleRequestFinished (e_deviceId e) (e_time e) (e_request e) c2 = Some c'"
      using assms(4) by (simp add: work_body_def c2_def Let_def)
    define i where "i = nat (e_deviceId e - 1)"
    define c3 where "c3 = c2\<lparr>devices := (devices c2)[i := freeDevice (e_time e) (devices c2 ! i)]\<rparr>"
    have c': "c' = loadRequestsToFreeDevices (e_time e) c3"
      using h by (simp add: handleRequestFinished_def c3_def i_def Let_def split: if_splits)
    have "times_ok c3" unfolding c3_def using ok2 by (rule times_ok_free)
    moreover have "e_time e = lastEventTime c3" using last2 by (simp add: c3_def)
    ultimately show ?thesis unfolding c' by (rule times_ok_load)
  qed
qed

lemma new_Controller_rngs:
  assumes "\<forall>k n. 0 \<le> sourceSeeds k n" and "\<forall>i n. 0 \<le> deviceSeeds i n"
  shows "\<forall>s\<in>set (sources (new_Controller nc np nf nd mx sourceSeeds deviceSeeds)).
           \<forall>n. 0 \<le> s_rng s n"
    and "\<forall>d\<in>set (devices (new_Controller nc np nf nd mx sourceSeeds deviceSeeds)).
           \<forall>n. 0 \<le> d_rng d n"
  using assms
  by (auto simp: new_Controller_def make_sources_def new_Source_def new_Device_def Let_def)

lemma run_start_times_ok:
  assumes "\<forall>k n. 0 \<le> sourceSeeds k n" and "\<forall>i n. 0 \<le> deviceSeeds i n"
  shows "times_ok (run_start nc np nf nd mx sourceSeeds deviceSeeds)"
proof -
  define c0 where "c0 = new_Controller nc np nf nd mx sourceSeeds deviceSeeds"
  define c where "c = run_start nc np nf nd mx sourceSeeds deviceSeeds"
  note E = run_start_effect [of nc np nf nd mx sourceSeeds deviceSeeds, folded c0_def c_def]
  note R = new_Controller_rngs [OF assms, of nc np nf nd mx, folded c0_def]
  note D = new_Controller_devices(3) [of nc np nf nd mx sourceSeeds deviceSeeds, folded c0_def]
  have 1: "lastEventTime c \<le> e_time e
           \<and> (e_type e = REQUEST_GENERATED \<longrightarrow> r_arrivalTime (e_request e) = e_time e)
           \<and> (e_type e = REQUEST_SERVED \<longrightarrow> wait_ok (e_request e))"
    if "e \<in> set (events c)" for e
  proof -
    from E(4) that obtain s where s: "e_type e = REQUEST_GENERATED" "s \<in> set (sources c0)"
      "e_time e = 0 + s_rng s 0" "r_arrivalTime (e_request e) = e_time e"
      by blast
    have "0 \<le> s_rng s 0" using R(1) s(2) by blast
    then show ?thesis using s E(3) by simp
  qed
  have 5: "(\<forall>r. d_currentRequest d = Some r \<longrightarrow> wait_ok r) \<and> (\<forall>n. 0 \<le> d_rng d n)"
    if "d \<in> set (devices c)" for d
    using that E(1) D R(2) by simp
  have 7: "\<forall>n. 0 \<le> s_rng s n" if "s \<in> set (sources c)" for s
  proof -
    from E(5) that consider "s \<in> set (sources c0)"
      | s0 where "s0 \<in> set (sources c0)" "s_rng s = (\<lambda>n. s_rng s0 (Suc n))"
      by blast
    then show ?thesis
    proof cases
      case 1
      then show ?thesis using R(1) by blast
    next
      case 2
      have "\<forall>n. 0 \<le> s_rng s0 n" using R(1) 2(1) by blast
      then show ?thesis using 2(2) by simp
    qed
  qed
  have "times_ok c" unfolding times_ok_iff using 1 5 7 E(2) by simp
  then show ?thesis by (simp add: c_def)
qed

lemma reachable_times_ok:
  assumes "\<forall>k n. 0 \<le> sourceSeeds k n" and "\<forall>i n. 0 \<le> deviceSeeds i n"
    and "work_iter\<^sup>*\<^sup>* (run_start nc np nf nd mx sourceSeeds deviceSeeds) c"
  shows "times_ok c"
  using assms(3)
proof (induction rule: rtranclp_induct)
  case base
  show ?case using assms(1,2) by (rule run_start_times_ok)
next
  case (step c c')
  from step(2) obtain e where "e \<in> set (events c)"
    "\<forall>e'\<in>set (events c). e_time e \<le> e_time e'" "work_body e c = Some c'"
    by (rule work_iterE)
  with step(3) show ?case by (rule times_ok_work_body)
qed

text \<open>
  C6. With generators whose draws are non-negative, in every state a run reaches at the
  head of the loop every dispatched request (held by a completion event or by a device)
  has \<open>arrivalTime \<le> bufferEnterTime \<le> startServiceTime\<close>.
\<close>

theorem dispatched_request_times:
  assumes "\<forall>k n. 0 \<le> sourceSeeds k n" and "\<forall>i n. 0 \<le> deviceSeeds i n"
    and "work_iter\<^sup>*\<^sup>* (run_start nc np nf nd mx sourceSeeds deviceSeeds) c"
    and "r \<in> set (dispatched_requests c)"
  shows "r_arrivalTime r \<le> r_bufferEnterTime r \<and> r_bufferEnterTime r \<le> r_startServiceTime r"
proof -
  have "times_ok c" using assms(1-3) by (rule reachable_times_ok)
  then have "wait_ok r" using assms(4) by (simp add: times_ok_def)
  then show ?thesis by (simp add: wait_ok_def)
qed

theorem dispatched_request_times_witness:
  "(\<forall>k n. 0 \<le> unit_seeds k n)
   \<and> work_iter\<^sup>*\<^sup>* (run_start 1 0 0 1 1 unit_seeds unit_seeds) demo_final
   \<and> dispatched_requests demo_final = [demo_request, demo_request]
   \<and> r_arrivalTime demo_request = 1 \<and> r_bufferEnterTime demo_request = 1
   \<and> r_startServiceTime demo_request = 1
   \<and> r_arrivalTime demo_request \<le> r_bufferEnterTime demo_request
   \<and> r_bufferEnterTime demo_request \<le> r_startServiceTime demo_request"
proof -
  have s: "\<forall>k n. 0 \<le> unit_seeds k n" by (simp add: unit_seeds_def)
  have r: "work_iter\<^sup>*\<^sup>* (run_start 1 0 0 1 1 unit_seeds unit_seeds) demo_final"
    using demo_iter by (simp add: demo_start_def)
  have d: "dispatched_requests demo_final = [demo_request, demo_request]"
    by (simp add: dispatched_requests_def loaded_requests_def demo_final_def)
  then have "demo_request \<in> set (dispatched_requests demo_final)" by simp
  from dispatched_request_times [OF s s r this] s r d
  show ?thesis by (simp add: demo_request_def)
qed

end
